theory Spec2Isabelle
  imports Complex_Main
begin

section \<open>Values, event names and settled promises\<close>

text \<open>
  A JavaScript number is a double. Only three things are asked of a number in
  \<^verbatim>\<open>src/helper.ts\<close>: its truth value (\<^verbatim>\<open>if (timeout)\<close>), whether it is positive, and its text in a
  template literal. So a number is \<open>NaN\<close>, an infinity, or a finite value; the finite values
  are taken from the rationals, which hold every finite double (\<open>-0\<close> is \<open>Finite 0\<close>: it has
  the truth value and the text of \<open>0\<close>).
\<close>

datatype number = NaN | PosInfinity | NegInfinity | Finite rat

fun truthy_number :: "number \<Rightarrow> bool" where
  "truthy_number NaN = False"
| "truthy_number (Finite q) = (q \<noteq> 0)"
| "truthy_number n = True"

text \<open>\<^verbatim>\<open>t > 0\<close>.\<close>

fun positive :: "number \<Rightarrow> bool" where
  "positive (Finite q) = (0 < q)"
| "positive PosInfinity = True"
| "positive n = False"

text \<open>
  The values that flow through \<^verbatim>\<open>src/helper.ts\<close>. Objects are references (a \<open>nat\<close> is the
  identity of the object), so that "the same object" is equality.

  A value is either a thenable, that is an object with a callable \<^verbatim>\<open>then\<close> such as a promise
  (\<open>Thenable i\<close>), or a value a promise is fulfilled with as it is (\<open>Plain v\<close>): a primitive, or
  an object whose \<^verbatim>\<open>then\<close> is not callable, which is what \<open>Object\<close>, \<open>ErrorObject\<close> and
  \<open>TimeoutError\<close> stand for. The difference matters wherever a promise is resolved: resolving
  with a thenable makes the promise follow the thenable, resolving with another value fulfils
  it. Hence a promise is never fulfilled with a thenable, while it may be rejected with any
  value. A thenable is taken to settle at most once, as a promise does, and when it does is
  up to the code that owns it. Objects whose \<^verbatim>\<open>then\<close> cannot even be read (a getter that
  throws) are outside the model.

  Modelled from the spec: the class \<^verbatim>\<open>TimeoutError\<close> of \<^verbatim>\<open>./errors\<close> is not under src; it is
  the "Timeout error" of the spec, an \<^verbatim>\<open>Error\<close> that carries its message.
\<close>

datatype plain =
    Undefined
  | Null
  | Boolean bool
  | Number number
  | String string
  | Object nat
  | ErrorObject nat string
  | TimeoutError string

datatype jsval = Plain plain | Thenable nat

text \<open>\<^verbatim>\<open>x instanceof Error\<close>, for a value a promise was fulfilled with.\<close>

fun instanceof_Error :: "plain \<Rightarrow> bool" where
  "instanceof_Error (ErrorObject r m) = True"
| "instanceof_Error (TimeoutError m) = True"
| "instanceof_Error v = False"

text \<open>The truth value JavaScript gives a value in \<^verbatim>\<open>if (x)\<close> and \<^verbatim>\<open>!x\<close>.\<close>

fun truthy_plain :: "plain \<Rightarrow> bool" where
  "truthy_plain Undefined = False"
| "truthy_plain Null = False"
| "truthy_plain (Boolean b) = b"
| "truthy_plain (Number n) = truthy_number n"
| "truthy_plain (String s) = (s \<noteq> [])"
| "truthy_plain v = True"

fun truthy :: "jsval \<Rightarrow> bool" where
  "truthy (Plain v) = truthy_plain v"
| "truthy (Thenable i) = True"

text \<open>
  An event name is \<^verbatim>\<open>string | symbol\<close>; a symbol has an identity and a description.
  \<open>String_of\<close> is \<^verbatim>\<open>String(eventName)\<close>.
\<close>

datatype evname = EvString string | EvSymbol nat string

fun String_of :: "evname \<Rightarrow> string" where
  "String_of (EvString s) = s"
| "String_of (EvSymbol i d) = ''Symbol('' @ d @ '')''"

text \<open>
  The text of a number in a template literal is the language's \<^verbatim>\<open>Number::toString\<close>. For
  \<open>NaN\<close>, the infinities and the safe integers (those of absolute value at most \<open>2^53 - 1\<close>)
  it is fixed here: a safe integer prints in plain decimal. For every other finite number
  the text depends on the shortest digits that read back as the same double (\<^verbatim>\<open>0.1\<close>,
  \<^verbatim>\<open>1e+21\<close>, \<^verbatim>\<open>1152921504606847000\<close> for \<open>2^60\<close>), which is outside this model: there the
  text is what the parameter \<open>digits\<close> says.
\<close>

definition digit :: "nat \<Rightarrow> char" where
  "digit d = ''0123456789'' ! d"

function show_nat :: "nat \<Rightarrow> string" where
  "show_nat n = (if n < 10 then [digit n] else show_nat (n div 10) @ [digit (n mod 10)])"
  by pat_completeness auto
termination
  by (relation "measure (\<lambda>n. n)") auto

definition show_int :: "int \<Rightarrow> string" where
  "show_int i = (if i < 0 then CHR ''-'' # show_nat (nat (- i)) else show_nat (nat i))"

definition safe_integer :: "rat \<Rightarrow> bool" where
  "safe_integer q \<longleftrightarrow> of_int \<lfloor>q\<rfloor> = q \<and> \<bar>\<lfloor>q\<rfloor>\<bar> \<le> 9007199254740991"

fun Number_toString :: "(rat \<Rightarrow> string) \<Rightarrow> number \<Rightarrow> string" where
  "Number_toString digits NaN = ''NaN''"
| "Number_toString digits PosInfinity = ''Infinity''"
| "Number_toString digits NegInfinity = ''-Infinity''"
| "Number_toString digits (Finite q) = (if safe_integer q then show_int \<lfloor>q\<rfloor> else digits q)"

text \<open>
  A promise is pending (\<open>None\<close>) or settled, and settles once: fulfilled with a value that is
  not a thenable, or rejected with any value.
\<close>

datatype completion = Fulfilled plain | Rejected jsval

type_synonym promise_state = "completion option"

section \<open>Listener Registry\<close>

text \<open>
  Modelled from the spec: \<^verbatim>\<open>platform.EventEmitterType\<close> is not under src. It is the Event
  Source of the spec: \<open>subscribe(eventName, handler)\<close>, \<open>unsubscribe(eventName, handler)\<close>,
  which tolerates a handler that is not registered. An emitter is an object (a \<open>nat\<close>)
  with, for each event name, the list of its handlers in the order of subscription; a handler
  may be subscribed more than once, and \<open>removeListener\<close> takes the latest subscription of
  the handler away, as Node's emitter does. \<open>'h\<close> is the identity of a function.
\<close>

type_synonym 'h emitters = "nat \<Rightarrow> evname \<Rightarrow> 'h list"

definition on :: "'h emitters \<Rightarrow> nat \<Rightarrow> evname \<Rightarrow> 'h \<Rightarrow> 'h emitters" where
  "on E em n h = E(em := (E em)(n := E em n @ [h]))"

definition removeListener :: "'h emitters \<Rightarrow> nat \<Rightarrow> evname \<Rightarrow> 'h \<Rightarrow> 'h emitters" where
  "removeListener E em n h = E(em := (E em)(n := rev (remove1 h (rev (E em n)))))"

record 'h RegisteredListener =
  emitter :: nat
  eventName :: evname
  handler :: 'h

text \<open>\<^verbatim>\<open>Helper.addEventListener\<close>: subscribe, and return the handle.\<close>

definition addEventListener ::
  "'h emitters \<Rightarrow> nat \<Rightarrow> evname \<Rightarrow> 'h \<Rightarrow> 'h emitters \<times> 'h RegisteredListener" where
  "addEventListener E em n h = (on E em n h, \<lparr>emitter = em, eventName = n, handler = h\<rparr>)"

text \<open>\<^verbatim>\<open>Array.prototype.splice(start, deleteCount)\<close> with no inserted items: what stays.\<close>

definition splice :: "'a list \<Rightarrow> nat \<Rightarrow> nat \<Rightarrow> 'a list" where
  "splice xs start deleteCount = take start xs @ drop (start + deleteCount) xs"

text \<open>
  \<^verbatim>\<open>Helper.removeEventListeners\<close>, on the emitters and the contents of the array it is given:
  the loop calls \<open>removeListener\<close> for each handle in order, then
  \<^verbatim>\<open>listeners.splice(0, listeners.length)\<close>. The result is the emitters and the new contents
  of the same array.
\<close>

definition removeEventListeners ::
  "'h emitters \<Rightarrow> 'h RegisteredListener list \<Rightarrow> 'h emitters \<times> 'h RegisteredListener list" where
  "removeEventListeners E listeners =
     (fold (\<lambda>listener E'. removeListener E' (emitter listener) (eventName listener) (handler listener))
        listeners E,
      splice listeners 0 (length listeners))"

text \<open>
  The array is an object: the caller and the callee hold the same reference. A heap of
  arrays makes this explicit; \<open>call_removeEventListeners\<close> is the call
  \<^verbatim>\<open>Helper.removeEventListeners(a)\<close> where the variable \<open>a\<close> holds the reference \<open>r\<close>.
\<close>

record 'h world =
  emitters_of :: "'h emitters"
  arrays :: "nat \<Rightarrow> 'h RegisteredListener list"

definition call_removeEventListeners :: "'h world \<Rightarrow> nat \<Rightarrow> 'h world" where
  "call_removeEventListeners w r =
     (case removeEventListeners (emitters_of w) (arrays w r) of
        (E', contents') \<Rightarrow> w\<lparr>emitters_of := E', arrays := (arrays w)(r := contents')\<rparr>)"

section \<open>Timed Wait Engine: the event loop\<close>

text \<open>
  One call of \<^verbatim>\<open>waitForEvent\<close> or \<^verbatim>\<open>waitWithTimeout\<close> runs on a single-threaded event loop.
  What the rest of the program and the runtime do to the call is a list of actions:
  \<^item> \<open>Emit em n v\<close>: \<^verbatim>\<open>em.emit(n, v)\<close> runs, synchronously, in whatever code is running;
  \<^item> \<open>Settle c\<close>: the promise the caller passed in (\<^verbatim>\<open>abortPromise\<close>, or the \<^verbatim>\<open>promise\<close> of
    \<^verbatim>\<open>waitWithTimeout\<close>) settles; a promise that is already settled ignores it;
  \<^item> \<open>SettleThenable i c\<close>: the thenable \<open>i\<close>, a promise of other code that may travel as
    the payload of an event, settles; one that is settled already ignores it. A thenable
    that was settled before the call is one that settles in the first action;
  \<^item> \<open>Tick\<close>: the oldest promise job queued by this call runs (jobs of other code, and
    other synchronous code, may run between two of them);
  \<^item> \<open>TimerFire\<close>: the delay of the timer has elapsed and the loop starts the task of the
    timer. A task starts only when the job queue is empty, so the queued jobs run first; the
    callback runs only if the timer is still armed.
\<close>

datatype action =
    Emit nat evname jsval
  | Settle completion
  | SettleThenable nat completion
  | Tick
  | TimerFire

datatype timer = NoTimer | Armed | Fired | Cleared

text \<open>\<^verbatim>\<open>clearTimeout(t)\<close>: an armed timer is cancelled; \<^verbatim>\<open>undefined\<close> and a timer that fired are left alone.\<close>

fun clearTimeout :: "timer \<Rightarrow> timer" where
  "clearTimeout Armed = Cleared"
| "clearTimeout t = t"

section \<open>Timed Wait Engine: waitForEvent\<close>

text \<open>
  The handler that \<^verbatim>\<open>waitForEvent\<close> subscribes is a closure created by the call, so it is
  distinct from every function the emitter already knows: \<open>WaitHandler\<close> against
  \<open>External i\<close>.

  The predicate is a \<^verbatim>\<open>Function\<close>: it returns a value or throws one, and it may keep state of
  its own between calls (a counter, say). \<open>'p\<close> is that state: \<open>arg_predicate\<close> takes the
  state and the payload and gives the result and the new state, \<open>arg_captured\<close> is the state
  at the call of \<^verbatim>\<open>waitForEvent\<close>. The predicate does not touch the emitter, the timer or the
  promises of the call.
\<close>

datatype fn = WaitHandler | External nat

datatype pred_result = Returns jsval | Throws jsval

record 'p wait_args =
  arg_emitter :: nat
  arg_eventName :: evname
  arg_predicate :: "'p \<Rightarrow> jsval \<Rightarrow> pred_result \<times> 'p"
  arg_captured :: 'p
  arg_timeout :: number

text \<open>
  The promise jobs of the call, in the order in which a call can come to them:
  \<^item> \<open>ResolveThenable i\<close>: \<^verbatim>\<open>promise\<close> was resolved with the thenable \<open>i\<close>; the job calls
    \<^verbatim>\<open>i.then\<close> with the resolving functions of \<^verbatim>\<open>promise\<close>;
  \<^item> \<open>ThenableReaction c\<close>: the thenable that \<^verbatim>\<open>promise\<close> follows has settled as \<open>c\<close>;
  \<^item> \<open>RaceReaction c\<close>: the reaction \<^verbatim>\<open>Promise.race\<close> put on \<^verbatim>\<open>promise\<close> and on \<^verbatim>\<open>abortPromise\<close>;
  \<^item> \<open>ThenReaction c\<close>: the callback of \<^verbatim>\<open>.then\<close> for the way the race settled;
  \<^item> \<open>AwaitResume c\<close>: the continuation of \<^verbatim>\<open>await\<close>.
\<close>

datatype job =
    ResolveThenable nat
  | ThenableReaction completion
  | RaceReaction completion
  | ThenReaction completion
  | AwaitResume completion

text \<open>
  The state of one call: the emitters, the variables \<^verbatim>\<open>listener\<close> and \<^verbatim>\<open>eventTimeout\<close>, the
  promises \<^verbatim>\<open>promise\<close>, \<^verbatim>\<open>abortPromise\<close>, \<^verbatim>\<open>Promise.race([...])\<close> (\<open>race\<close>), \<^verbatim>\<open>.then(...)\<close>
  (\<open>chained\<close>) and the promise the async function returned to its caller (\<open>returned\<close>), the
  queued jobs, the state of the predicate, and counters of the calls made so far.

  \<open>alreadyResolved\<close> is the flag that the two resolving functions of \<^verbatim>\<open>promise\<close> share: it is
  set by the first call of either, also when that call leaves \<^verbatim>\<open>promise\<close> pending because
  it follows a thenable. \<open>following\<close> is the thenable on which the reaction of \<^verbatim>\<open>promise\<close> is
  registered, and \<open>thenables\<close> is how the promises of other code stand.
\<close>

record 'p wait_state =
  emitters :: "fn emitters"
  listener :: "fn RegisteredListener"
  eventTimeout :: timer
  promise :: promise_state
  alreadyResolved :: bool
  following :: "nat option"
  thenables :: "nat \<Rightarrow> promise_state"
  abortPromise :: promise_state
  race :: promise_state
  chained :: promise_state
  returned :: promise_state
  microtasks :: "job list"
  captured :: 'p
  cleanup_calls :: nat
  removeListener_calls :: nat
  clearTimeout_calls :: nat

text \<open>\<^verbatim>\<open>promise\<close> settles, once, and the reaction of the race is queued.\<close>

definition settle :: "completion \<Rightarrow> 'p wait_state \<Rightarrow> 'p wait_state" where
  "settle c s =
     (if promise s = None
      then s\<lparr>promise := Some c, microtasks := microtasks s @ [RaceReaction c]\<rparr>
      else s)"

text \<open>
  \<^verbatim>\<open>resolveCallback\<close> and \<^verbatim>\<open>rejectCallback\<close> are the resolving functions of \<^verbatim>\<open>promise\<close>: only the
  first call of either does anything. \<^verbatim>\<open>resolve(event)\<close> with a thenable queues the job that
  makes \<^verbatim>\<open>promise\<close> follow it, and with any other value fulfils \<^verbatim>\<open>promise\<close>; \<^verbatim>\<open>reject(e)\<close>
  rejects \<^verbatim>\<open>promise\<close> with \<open>e\<close>, whatever \<open>e\<close> is.
\<close>

definition resolveCallback :: "jsval \<Rightarrow> 'p wait_state \<Rightarrow> 'p wait_state" where
  "resolveCallback event s =
     (if alreadyResolved s then s
      else case event of
             Thenable i \<Rightarrow>
               s\<lparr>alreadyResolved := True, microtasks := microtasks s @ [ResolveThenable i]\<rparr>
           | Plain v \<Rightarrow> settle (Fulfilled v) (s\<lparr>alreadyResolved := True\<rparr>))"

definition rejectCallback :: "jsval \<Rightarrow> 'p wait_state \<Rightarrow> 'p wait_state" where
  "rejectCallback e s =
     (if alreadyResolved s then s else settle (Rejected e) (s\<lparr>alreadyResolved := True\<rparr>))"

text \<open>The handler: \<^verbatim>\<open>try { if (!predicate(event)) return; resolveCallback(event); } catch (e) { rejectCallback(e); }\<close>\<close>

definition handler_body :: "'p wait_args \<Rightarrow> jsval \<Rightarrow> 'p wait_state \<Rightarrow> 'p wait_state" where
  "handler_body A event s =
     (case arg_predicate A (captured s) event of
        (Throws e, p) \<Rightarrow> rejectCallback e (s\<lparr>captured := p\<rparr>)
      | (Returns r, p) \<Rightarrow>
          if \<not> truthy r then s\<lparr>captured := p\<rparr> else resolveCallback event (s\<lparr>captured := p\<rparr>))"

text \<open>\<^verbatim>\<open>em.emit(n, event)\<close> calls the handlers subscribed to \<open>n\<close> on \<open>em\<close>, in order.\<close>

definition emit :: "'p wait_args \<Rightarrow> nat \<Rightarrow> evname \<Rightarrow> jsval \<Rightarrow> 'p wait_state \<Rightarrow> 'p wait_state" where
  "emit A em n event s =
     fold (\<lambda>g s'. case g of WaitHandler \<Rightarrow> handler_body A event s' | External i \<Rightarrow> s')
       (emitters s em n) s"

text \<open>\<^verbatim>\<open>cleanup()\<close>: \<^verbatim>\<open>Helper.removeEventListeners([listener]); clearTimeout(eventTimeout);\<close>\<close>

definition cleanup :: "'p wait_state \<Rightarrow> 'p wait_state" where
  "cleanup s =
     (case removeEventListeners (emitters s) [listener s] of
        (E', drained) \<Rightarrow>
          s\<lparr>emitters := E',
            eventTimeout := clearTimeout (eventTimeout s),
            cleanup_calls := cleanup_calls s + 1,
            removeListener_calls := removeListener_calls s + length [listener s],
            clearTimeout_calls := clearTimeout_calls s + 1\<rparr>)"

text \<open>
  The jobs. A thenable that has settled already queues its reaction when \<^verbatim>\<open>then\<close> is called
  on it, one that is pending keeps the reaction until it settles; either way the reaction
  settles \<^verbatim>\<open>promise\<close> as the thenable settled. The race settles as the first of its reactions
  that runs says. \<^verbatim>\<open>.then\<close> runs \<^verbatim>\<open>r => { cleanup(); return r; }\<close> or
  \<^verbatim>\<open>e => { cleanup(); throw e; }\<close>. After the \<^verbatim>\<open>await\<close>:
  \<^verbatim>\<open>if (result instanceof Error) throw result; return result;\<close>, and a rejection is thrown by
  the \<^verbatim>\<open>await\<close> itself (\<open>after_await\<close> is how the async function settles the promise it
  returned, from the way the awaited promise settled).
\<close>

fun after_await :: "completion \<Rightarrow> completion" where
  "after_await (Fulfilled result) =
     (if instanceof_Error result then Rejected (Plain result) else Fulfilled result)"
| "after_await (Rejected e) = Rejected e"

fun run_job :: "job \<Rightarrow> 'p wait_state \<Rightarrow> 'p wait_state" where
  "run_job (ResolveThenable i) s =
     (case thenables s i of
        Some c \<Rightarrow> s\<lparr>microtasks := microtasks s @ [ThenableReaction c]\<rparr>
      | None \<Rightarrow> s\<lparr>following := Some i\<rparr>)"
| "run_job (ThenableReaction c) s = settle c s"
| "run_job (RaceReaction c) s =
     (if race s = None
      then s\<lparr>race := Some c, microtasks := microtasks s @ [ThenReaction c]\<rparr>
      else s)"
| "run_job (ThenReaction c) s =
     (let s' = cleanup s
      in s'\<lparr>chained := Some c, microtasks := microtasks s' @ [AwaitResume c]\<rparr>)"
| "run_job (AwaitResume c) s = s\<lparr>returned := Some (after_await c)\<rparr>"

definition tick :: "'p wait_state \<Rightarrow> 'p wait_state" where
  "tick s = (case microtasks s of [] \<Rightarrow> s | j # js \<Rightarrow> run_job j (s\<lparr>microtasks := js\<rparr>))"

text \<open>Each job queues at most one job, of a later kind: the queue runs empty.\<close>

fun job_weight :: "job \<Rightarrow> nat" where
  "job_weight (ResolveThenable i) = 5"
| "job_weight (ThenableReaction c) = 4"
| "job_weight (RaceReaction c) = 3"
| "job_weight (ThenReaction c) = 2"
| "job_weight (AwaitResume c) = 1"

function drain :: "'p wait_state \<Rightarrow> 'p wait_state" where
  "drain s = (if microtasks s = [] then s else drain (tick s))"
  by pat_completeness auto
termination
proof (relation "measure (\<lambda>s. sum_list (map job_weight (microtasks s)))")
  show "wf (measure (\<lambda>s. sum_list (map job_weight (microtasks s))))"
    by simp
next
  fix s :: "'p wait_state"
  assume nonempty: "microtasks s \<noteq> []"
  then obtain j js where q: "microtasks s = j # js"
    by (cases "microtasks s") auto
  have "sum_list (map job_weight (microtasks (tick s))) < sum_list (map job_weight (microtasks s))"
  proof (cases j)
    case (ResolveThenable i)
    with q show ?thesis by (simp add: tick_def split: option.splits)
  next
    case (ThenableReaction c)
    with q show ?thesis by (simp add: tick_def settle_def)
  next
    case (RaceReaction c)
    with q show ?thesis by (simp add: tick_def)
  next
    case (ThenReaction c)
    with q show ?thesis
      by (simp add: tick_def cleanup_def Let_def split: prod.splits)
  next
    case (AwaitResume c)
    with q show ?thesis by (simp add: tick_def)
  qed
  then show "(tick s, s) \<in> measure (\<lambda>s. sum_list (map job_weight (microtasks s)))"
    by simp
qed

declare drain.simps [simp del]

text \<open>
  The timer, armed by \<^verbatim>\<open>if (timeout) eventTimeout = setTimeout(..., timeout)\<close>; its callback is
  \<^verbatim>\<open>rejectCallback(new TimeoutError(`Timeout exceeded while waiting for ${String(eventName)}`))\<close>.
\<close>

definition timeout_message :: "evname \<Rightarrow> string" where
  "timeout_message n = ''Timeout exceeded while waiting for '' @ String_of n"

definition timer_callback :: "'p wait_args \<Rightarrow> 'p wait_state \<Rightarrow> 'p wait_state" where
  "timer_callback A s =
     rejectCallback (Plain (TimeoutError (timeout_message (arg_eventName A)))) s"

definition timer_fire :: "'p wait_args \<Rightarrow> 'p wait_state \<Rightarrow> 'p wait_state" where
  "timer_fire A s =
     (let s' = drain s
      in if eventTimeout s' = Armed then timer_callback A (s'\<lparr>eventTimeout := Fired\<rparr>) else s')"

definition abort_settle :: "completion \<Rightarrow> 'p wait_state \<Rightarrow> 'p wait_state" where
  "abort_settle c s =
     (if abortPromise s = None
      then s\<lparr>abortPromise := Some c, microtasks := microtasks s @ [RaceReaction c]\<rparr>
      else s)"

text \<open>A thenable settles; if \<^verbatim>\<open>promise\<close> follows it, the reaction is queued.\<close>

definition thenable_settle :: "nat \<Rightarrow> completion \<Rightarrow> 'p wait_state \<Rightarrow> 'p wait_state" where
  "thenable_settle i c s =
     (if thenables s i = None
      then (if following s = Some i
            then s\<lparr>thenables := (thenables s)(i := Some c),
                   microtasks := microtasks s @ [ThenableReaction c]\<rparr>
            else s\<lparr>thenables := (thenables s)(i := Some c)\<rparr>)
      else s)"

fun step :: "'p wait_args \<Rightarrow> action \<Rightarrow> 'p wait_state \<Rightarrow> 'p wait_state" where
  "step A (Emit em n event) s = emit A em n event s"
| "step A (Settle c) s = abort_settle c s"
| "step A (SettleThenable i c) s = thenable_settle i c s"
| "step A Tick s = tick s"
| "step A TimerFire s = timer_fire A s"

text \<open>
  \<^verbatim>\<open>waitForEvent(emitter, eventName, predicate, timeout, abortPromise)\<close> up to its \<^verbatim>\<open>await\<close>, which
  runs synchronously: the handler is subscribed, the timer is armed if \<open>timeout\<close> is truthy,
  and the race is started. \<open>E\<close> holds the subscriptions of the other code, \<open>abort\<close> is the
  state of \<^verbatim>\<open>abortPromise\<close> at the call; if it is settled already, its reaction is queued
  at once.
\<close>

definition waitForEvent :: "'p wait_args \<Rightarrow> nat emitters \<Rightarrow> promise_state \<Rightarrow> 'p wait_state" where
  "waitForEvent A E abort =
     (case addEventListener (\<lambda>em n. map External (E em n))
             (arg_emitter A) (arg_eventName A) WaitHandler of
        (E', l) \<Rightarrow>
          \<lparr>emitters = E',
           listener = l,
           eventTimeout = (if truthy_number (arg_timeout A) then Armed else NoTimer),
           promise = None,
           alreadyResolved = False,
           following = None,
           thenables = (\<lambda>i. None),
           abortPromise = abort,
           race = None,
           chained = None,
           returned = None,
           microtasks = (case abort of None \<Rightarrow> [] | Some c \<Rightarrow> [RaceReaction c]),
           captured = arg_captured A,
           cleanup_calls = 0,
           removeListener_calls = 0,
           clearTimeout_calls = 0\<rparr>)"

text \<open>
  The call followed by the actions \<open>acts\<close>; \<open>outcome\<close> is what the caller observes once the
  queued jobs have run: \<open>None\<close> while the wait is pending, \<open>Some (Fulfilled v)\<close> when the call
  returned \<open>v\<close>, \<open>Some (Rejected e)\<close> when it threw \<open>e\<close>.
\<close>

definition run :: "'p wait_args \<Rightarrow> nat emitters \<Rightarrow> promise_state \<Rightarrow> action list \<Rightarrow> 'p wait_state" where
  "run A E abort acts = fold (step A) acts (waitForEvent A E abort)"

definition outcome :: "'p wait_args \<Rightarrow> nat emitters \<Rightarrow> promise_state \<Rightarrow> action list \<Rightarrow> promise_state" where
  "outcome A E abort acts = returned (drain (run A E abort acts))"

section \<open>Timed Wait Engine: waitWithTimeout\<close>

text \<open>
  The promise jobs of one call of \<^verbatim>\<open>waitWithTimeout\<close>: the reaction \<^verbatim>\<open>Promise.race\<close> put on
  \<^verbatim>\<open>promise\<close> and on \<^verbatim>\<open>timeoutPromise\<close>, and the continuation of \<^verbatim>\<open>await\<close>.
\<close>

datatype timeout_job = TimeoutRaceReaction completion | TimeoutAwaitResume completion

text \<open>
  The state of one call: the constant \<^verbatim>\<open>timeoutError\<close>, the variable \<^verbatim>\<open>timeoutTimer\<close>
  (\<open>NoTimer\<close> is \<^verbatim>\<open>null\<close>), the argument \<^verbatim>\<open>promise\<close> (\<open>supplied\<close>), \<^verbatim>\<open>timeoutPromise\<close>, the race
  (\<open>raced\<close>), the promise the async function returned to its caller (\<open>result\<close>), the
  queued jobs, and the number of calls of \<^verbatim>\<open>clearTimeout\<close>.
\<close>

record timeout_state =
  timeoutError :: plain
  timeoutTimer :: timer
  supplied :: promise_state
  timeoutPromise :: promise_state
  raced :: promise_state
  result :: promise_state
  jobs :: "timeout_job list"
  timer_clears :: nat

text \<open>\<^verbatim>\<open>reject\<close> is the rejecting function of \<^verbatim>\<open>timeoutPromise\<close>; \<open>supplied_settle\<close> is the settling of
  \<^verbatim>\<open>promise\<close> by its owner.\<close>

definition reject :: "plain \<Rightarrow> timeout_state \<Rightarrow> timeout_state" where
  "reject e s =
     (if timeoutPromise s = None
      then s\<lparr>timeoutPromise := Some (Rejected (Plain e)),
             jobs := jobs s @ [TimeoutRaceReaction (Rejected (Plain e))]\<rparr>
      else s)"

definition supplied_settle :: "completion \<Rightarrow> timeout_state \<Rightarrow> timeout_state" where
  "supplied_settle c s =
     (if supplied s = None
      then s\<lparr>supplied := Some c, jobs := jobs s @ [TimeoutRaceReaction c]\<rparr>
      else s)"

text \<open>\<^verbatim>\<open>finally { if (timeoutTimer) clearTimeout(timeoutTimer); }\<close>\<close>

definition finally_block :: "timeout_state \<Rightarrow> timeout_state" where
  "finally_block s =
     (if timeoutTimer s \<noteq> NoTimer
      then s\<lparr>timeoutTimer := clearTimeout (timeoutTimer s), timer_clears := timer_clears s + 1\<rparr>
      else s)"

text \<open>\<^verbatim>\<open>try { return await Promise.race([promise, timeoutPromise]); } finally { ... }\<close>: the value
  or the failure of the race passes through the \<^verbatim>\<open>finally\<close> block unchanged.\<close>

fun run_timeout_job :: "timeout_job \<Rightarrow> timeout_state \<Rightarrow> timeout_state" where
  "run_timeout_job (TimeoutRaceReaction c) s =
     (if raced s = None
      then s\<lparr>raced := Some c, jobs := jobs s @ [TimeoutAwaitResume c]\<rparr>
      else s)"
| "run_timeout_job (TimeoutAwaitResume c) s = (finally_block s)\<lparr>result := Some c\<rparr>"

definition timeout_tick :: "timeout_state \<Rightarrow> timeout_state" where
  "timeout_tick s = (case jobs s of [] \<Rightarrow> s | j # js \<Rightarrow> run_timeout_job j (s\<lparr>jobs := js\<rparr>))"

fun timeout_job_weight :: "timeout_job \<Rightarrow> nat" where
  "timeout_job_weight (TimeoutRaceReaction c) = 2"
| "timeout_job_weight (TimeoutAwaitResume c) = 1"

function timeout_drain :: "timeout_state \<Rightarrow> timeout_state" where
  "timeout_drain s = (if jobs s = [] then s else timeout_drain (timeout_tick s))"
  by pat_completeness auto
termination
proof (relation "measure (\<lambda>s. sum_list (map timeout_job_weight (jobs s)))")
  show "wf (measure (\<lambda>s. sum_list (map timeout_job_weight (jobs s))))"
    by simp
next
  fix s :: timeout_state
  assume "jobs s \<noteq> []"
  then obtain j js where q: "jobs s = j # js"
    by (cases "jobs s") auto
  have "sum_list (map timeout_job_weight (jobs (timeout_tick s)))
          < sum_list (map timeout_job_weight (jobs s))"
    using q by (cases j) (simp_all add: timeout_tick_def finally_block_def)
  then show "(timeout_tick s, s) \<in> measure (\<lambda>s. sum_list (map timeout_job_weight (jobs s)))"
    by simp
qed

declare timeout_drain.simps [simp del]

text \<open>The callback of the timer is \<^verbatim>\<open>() => reject(timeoutError)\<close>.\<close>

definition timeout_fire :: "timeout_state \<Rightarrow> timeout_state" where
  "timeout_fire s =
     (let s' = timeout_drain s
      in if timeoutTimer s' = Armed then reject (timeoutError s') (s'\<lparr>timeoutTimer := Fired\<rparr>) else s')"

fun timeout_step :: "action \<Rightarrow> timeout_state \<Rightarrow> timeout_state" where
  "timeout_step (Emit em n event) s = s"
| "timeout_step (Settle c) s = supplied_settle c s"
| "timeout_step (SettleThenable i c) s = s"
| "timeout_step Tick s = timeout_tick s"
| "timeout_step TimerFire s = timeout_fire s"

text \<open>\<^verbatim>\<open>`waiting for ${taskName} failed: timeout ${timeout}ms exceeded`\<close>\<close>

definition timeout_text :: "(rat \<Rightarrow> string) \<Rightarrow> string \<Rightarrow> number \<Rightarrow> string" where
  "timeout_text digits taskName timeout =
     ''waiting for '' @ taskName @ '' failed: timeout '' @ Number_toString digits timeout
       @ ''ms exceeded''"

text \<open>
  \<^verbatim>\<open>waitWithTimeout(promise, taskName, timeout)\<close> up to its \<^verbatim>\<open>await\<close>: the error is built, the
  timer is armed if \<open>timeout\<close> is truthy, and the race is started. \<open>p\<close> is the state of
  \<^verbatim>\<open>promise\<close> at the call, \<open>digits\<close> the text of the numbers that \<open>Number_toString\<close> leaves
  open.
\<close>

definition waitWithTimeout ::
  "(rat \<Rightarrow> string) \<Rightarrow> promise_state \<Rightarrow> string \<Rightarrow> number \<Rightarrow> timeout_state" where
  "waitWithTimeout digits p taskName timeout =
     \<lparr>timeoutError = TimeoutError (timeout_text digits taskName timeout),
      timeoutTimer = (if truthy_number timeout then Armed else NoTimer),
      supplied = p,
      timeoutPromise = None,
      raced = None,
      result = None,
      jobs = (case p of None \<Rightarrow> [] | Some c \<Rightarrow> [TimeoutRaceReaction c]),
      timer_clears = 0\<rparr>"

definition timeout_run ::
  "(rat \<Rightarrow> string) \<Rightarrow> promise_state \<Rightarrow> string \<Rightarrow> number \<Rightarrow> action list \<Rightarrow> timeout_state" where
  "timeout_run digits p taskName timeout acts =
     fold timeout_step acts (waitWithTimeout digits p taskName timeout)"

definition timeout_outcome ::
  "(rat \<Rightarrow> string) \<Rightarrow> promise_state \<Rightarrow> string \<Rightarrow> number \<Rightarrow> action list \<Rightarrow> promise_state" where
  "timeout_outcome digits p taskName timeout acts =
     result (timeout_drain (timeout_run digits p taskName timeout acts))"

text \<open>
  For the comparison with a plain \<^verbatim>\<open>await promise\<close>: what awaiting \<open>p\<close> directly gives under
  the same actions, which is the way \<open>p\<close> settles (if it does).
\<close>

fun await_directly :: "promise_state \<Rightarrow> action list \<Rightarrow> promise_state" where
  "await_directly (Some c) acts = Some c"
| "await_directly None [] = None"
| "await_directly None (Settle c # acts) = Some c"
| "await_directly None (a # acts) = await_directly None acts"

text \<open>The actions that settle nothing: no settling of \<^verbatim>\<open>promise\<close>, no expiry of the timer.\<close>

fun quiet :: "action \<Rightarrow> bool" where
  "quiet (Emit em n v) = True"
| "quiet (Settle c) = False"
| "quiet (SettleThenable i c) = True"
| "quiet Tick = True"
| "quiet TimerFire = False"


section \<open>Invariants of a call\<close>

text \<open>
  The jobs of a call that come after the race (\<open>staged\<close>) show how far the call has come:
  nothing before the race settles, then the \<^verbatim>\<open>.then\<close> callback, then the continuation of the
  \<^verbatim>\<open>await\<close>, then nothing. \<open>first_reaction\<close> is the oldest reaction of the race in a queue.
\<close>

fun after_race :: "job \<Rightarrow> bool" where
  "after_race (ThenReaction c) = True"
| "after_race (AwaitResume c) = True"
| "after_race j = False"

definition staged :: "'p wait_state \<Rightarrow> job list" where
  "staged s = filter after_race (microtasks s)"

fun first_reaction :: "job list \<Rightarrow> promise_state" where
  "first_reaction [] = None"
| "first_reaction (RaceReaction c # js) = Some c"
| "first_reaction (j # js) = first_reaction js"

definition pipeline :: "'p wait_state \<Rightarrow> bool" where
  "pipeline s =
     (case race s of
        None \<Rightarrow> chained s = None \<and> returned s = None \<and> staged s = [] \<and>
                (first_reaction (microtasks s) = None \<longleftrightarrow>
                   promise s = None \<and> abortPromise s = None)
      | Some c \<Rightarrow>
          (case chained s of
             None \<Rightarrow> returned s = None \<and> staged s = [ThenReaction c]
           | Some c' \<Rightarrow> c' = c \<and>
               (case returned s of
                  None \<Rightarrow> staged s = [AwaitResume c]
                | Some r \<Rightarrow> r = after_await c \<and> staged s = [])))"

text \<open>A reaction of the race, and the race itself, carry the completion of one of the two promises.\<close>

definition source :: "'p wait_state \<Rightarrow> completion \<Rightarrow> bool" where
  "source s c \<longleftrightarrow> promise s = Some c \<or> abortPromise s = Some c"

definition sourced :: "'p wait_state \<Rightarrow> bool" where
  "sourced s \<longleftrightarrow>
     (\<forall>c. RaceReaction c \<in> set (microtasks s) \<longrightarrow> source s c) \<and>
     (\<forall>c. race s = Some c \<longrightarrow> source s c)"

text \<open>The listener and the timer are held until \<open>cleanup\<close> runs, which is when \<open>chained\<close> settles.\<close>

definition resources :: "'p wait_args \<Rightarrow> nat emitters \<Rightarrow> 'p wait_state \<Rightarrow> bool" where
  "resources A E s \<longleftrightarrow>
     cleanup_calls s = (if chained s = None then 0 else 1) \<and>
     removeListener_calls s = cleanup_calls s \<and>
     clearTimeout_calls s = cleanup_calls s \<and>
     listener s = \<lparr>emitter = arg_emitter A, eventName = arg_eventName A, handler = WaitHandler\<rparr> \<and>
     (\<forall>e n. emitters s e n =
        map External (E e n) @
        (if e = arg_emitter A \<and> n = arg_eventName A \<and> chained s = None then [WaitHandler] else [])) \<and>
     (if \<not> truthy_number (arg_timeout A) then eventTimeout s = NoTimer
      else if chained s = None then eventTimeout s = Armed \<or> eventTimeout s = Fired
      else eventTimeout s = Cleared \<or> eventTimeout s = Fired)"

definition Inv :: "'p wait_args \<Rightarrow> nat emitters \<Rightarrow> 'p wait_state \<Rightarrow> bool" where
  "Inv A E s \<longleftrightarrow> pipeline s \<and> sourced s \<and> resources A E s"

text \<open>
  The completion that wins the race, known from the moment a source fires: the race if it
  has settled, else the oldest queued reaction of the race.
\<close>

definition decided :: "'p wait_state \<Rightarrow> promise_state" where
  "decided s =
     (case race s of
        Some c \<Rightarrow> Some c
      | None \<Rightarrow> first_reaction (microtasks s))"

text \<open>
  A run of actions that leaves a wait pending and \<^verbatim>\<open>promise\<close> unresolved: events on another
  emitter or name, events for which the predicate returns a falsy value, thenables that
  settle, ticks, and expiries of a timer that was never armed. Settling \<^verbatim>\<open>abortPromise\<close>, an
  event on which the predicate returns a truthy value or throws, and the expiry of an armed
  timer end it. \<open>idle_prefix A p acts\<close> is \<open>Some p'\<close> when \<open>acts\<close> is such a run from the
  predicate state \<open>p\<close>, and \<open>p'\<close> is the state the predicate is left in; it is \<open>None\<close>
  otherwise.
\<close>

fun idle_prefix :: "'p wait_args \<Rightarrow> 'p \<Rightarrow> action list \<Rightarrow> 'p option" where
  "idle_prefix A p [] = Some p"
| "idle_prefix A p (Emit em n v # acts) =
     (if em = arg_emitter A \<and> n = arg_eventName A
      then (case arg_predicate A p v of
              (Returns r, p') \<Rightarrow> if truthy r then None else idle_prefix A p' acts
            | (Throws e, p') \<Rightarrow> None)
      else idle_prefix A p acts)"
| "idle_prefix A p (Settle c # acts) = None"
| "idle_prefix A p (SettleThenable i c # acts) = idle_prefix A p acts"
| "idle_prefix A p (Tick # acts) = idle_prefix A p acts"
| "idle_prefix A p (TimerFire # acts) =
     (if truthy_number (arg_timeout A) then None else idle_prefix A p acts)"

text \<open>
  Cleanup has been done, once: one call of \<open>cleanup\<close>, one of \<open>removeListener\<close>, one of
  \<open>clearTimeout\<close>; the handler of the call is no longer subscribed, the emitter has the
  subscribers it had before the call, and no timer is armed.
\<close>

definition cleaned_up :: "'p wait_args \<Rightarrow> nat emitters \<Rightarrow> 'p wait_state \<Rightarrow> bool" where
  "cleaned_up A E s \<longleftrightarrow>
     cleanup_calls s = 1 \<and> removeListener_calls s = 1 \<and> clearTimeout_calls s = 1 \<and>
     WaitHandler \<notin> set (emitters s (arg_emitter A) (arg_eventName A)) \<and>
     emitters s (arg_emitter A) (arg_eventName A) = map External (E (arg_emitter A) (arg_eventName A)) \<and>
     eventTimeout s \<noteq> Armed"

section \<open>Example inputs\<close>

text \<open>
  A predicate without state that accepts a positive number, rejects the other numbers,
  throws on a string and returns \<^verbatim>\<open>true\<close> on every other payload; a predicate that counts its
  calls and accepts the second one; a wait for \<open>load\<close> on emitter 0 with a timeout of one
  second, for each of them; an emitter that already has one subscriber to \<open>load\<close>.
\<close>

fun example_predicate :: "unit \<Rightarrow> jsval \<Rightarrow> pred_result \<times> unit" where
  "example_predicate u (Plain (Number n)) = (Returns (Plain (Boolean (positive n))), u)"
| "example_predicate u (Plain (String m)) = (Throws (Plain (ErrorObject 7 m)), u)"
| "example_predicate u v = (Returns (Plain (Boolean True)), u)"

definition example_args :: "unit wait_args" where
  "example_args =
     \<lparr>arg_emitter = 0, arg_eventName = EvString ''load'',
      arg_predicate = example_predicate, arg_captured = (), arg_timeout = Finite 1000\<rparr>"

definition second_call :: "nat \<Rightarrow> jsval \<Rightarrow> pred_result \<times> nat" where
  "second_call calls v = (Returns (Plain (Boolean (calls = 1))), calls + 1)"

definition counting_args :: "nat wait_args" where
  "counting_args =
     \<lparr>arg_emitter = 0, arg_eventName = EvString ''load'',
      arg_predicate = second_call, arg_captured = 0, arg_timeout = Finite 1000\<rparr>"

definition example_emitters :: "nat emitters" where
  "example_emitters em n = (if em = 0 \<and> n = EvString ''load'' then [5] else [])"

text \<open>
  The subscriptions of one emitter and one array of handles: handler 5 on \<open>load\<close> and
  handler 6 on \<open>close\<close> of emitter 0, and the array with reference 1 that holds the two
  handles.
\<close>

definition example_world :: "nat world" where
  "example_world =
     \<lparr>emitters_of = on (on (\<lambda>em n. []) 0 (EvString ''load'') 5) 0 (EvString ''close'') 6,
      arrays = (\<lambda>r. if r = 1
                 then [\<lparr>emitter = 0, eventName = EvString ''load'', handler = 5\<rparr>,
                       \<lparr>emitter = 0, eventName = EvString ''close'', handler = 6\<rparr>]
                 else [])\<rparr>"

text \<open>A text for the numbers \<open>Number_toString\<close> leaves open, to run examples with: \<^verbatim>\<open>1.5\<close> for \<open>3/2\<close>.\<close>

definition example_digits :: "rat \<Rightarrow> string" where
  "example_digits q = (if q = 3 / 2 then ''1.5'' else [])"

text \<open>The same for \<^verbatim>\<open>waitWithTimeout\<close>.\<close>

fun is_timeout_race :: "timeout_job \<Rightarrow> bool" where
  "is_timeout_race (TimeoutRaceReaction c) = True"
| "is_timeout_race j = False"

definition timeout_staged :: "timeout_state \<Rightarrow> timeout_job list" where
  "timeout_staged s = filter (\<lambda>j. \<not> is_timeout_race j) (jobs s)"

definition timeout_pipeline :: "timeout_state \<Rightarrow> bool" where
  "timeout_pipeline s =
     (case raced s of
        None \<Rightarrow> result s = None \<and> timeout_staged s = [] \<and>
                (jobs s = [] \<longleftrightarrow> supplied s = None \<and> timeoutPromise s = None)
      | Some c \<Rightarrow>
          (case result s of
             None \<Rightarrow> timeout_staged s = [TimeoutAwaitResume c]
           | Some r \<Rightarrow> r = c \<and> timeout_staged s = []))"

definition timeout_resources ::
  "(rat \<Rightarrow> string) \<Rightarrow> string \<Rightarrow> number \<Rightarrow> timeout_state \<Rightarrow> bool" where
  "timeout_resources digits taskName timeout s \<longleftrightarrow>
     timeoutError s = TimeoutError (timeout_text digits taskName timeout) \<and>
     (timeoutPromise s \<noteq> None \<longleftrightarrow> timeoutTimer s = Fired) \<and>
     (timeoutPromise s \<noteq> None \<longrightarrow> timeoutPromise s = Some (Rejected (Plain (timeoutError s)))) \<and>
     timer_clears s = (if \<not> truthy_number timeout \<or> result s = None then 0 else 1) \<and>
     (if \<not> truthy_number timeout then timeoutTimer s = NoTimer
      else if result s = None then timeoutTimer s = Armed \<or> timeoutTimer s = Fired
      else timeoutTimer s = Cleared \<or> timeoutTimer s = Fired)"

definition timeout_Inv ::
  "(rat \<Rightarrow> string) \<Rightarrow> string \<Rightarrow> number \<Rightarrow> timeout_state \<Rightarrow> bool" where
  "timeout_Inv digits taskName timeout s \<longleftrightarrow>
     timeout_pipeline s \<and> timeout_resources digits taskName timeout s"

definition timeout_decided :: "timeout_state \<Rightarrow> promise_state" where
  "timeout_decided s =
     (case raced s of
        Some c \<Rightarrow> Some c
      | None \<Rightarrow> (case jobs s of TimeoutRaceReaction c # js \<Rightarrow> Some c | _ \<Rightarrow> None))"

section \<open>Properties of the Listener Registry\<close>

lemma splice_all: "splice xs 0 (length xs) = []"
  by (simp add: splice_def)

lemma removeEventListeners_drains: "snd (removeEventListeners E ls) = []"
  by (simp add: removeEventListeners_def splice_all)

lemma removeEventListeners_empty: "removeEventListeners E [] = (E, [])"
  by (simp add: removeEventListeners_def splice_def)

lemma count_removeListener:
  "count_list (removeListener E em n h e m) g =
     count_list (E e m) g - (if e = em \<and> m = n \<and> g = h then 1 else 0)"
  by (auto simp: removeListener_def)

lemma count_fold_removeListener:
  "count_list
     (fold (\<lambda>l E'. removeListener E' (emitter l) (eventName l) (handler l)) ls E e m) g =
   count_list (E e m) g - count_list ls \<lparr>emitter = e, eventName = m, handler = g\<rparr>"
proof (induction ls arbitrary: E)
  case Nil
  show ?case by simp
next
  case (Cons l ls)
  have eq: "(l = \<lparr>emitter = e, eventName = m, handler = g\<rparr>) =
            (e = emitter l \<and> m = eventName l \<and> g = handler l)"
    by (cases l) auto
  show ?case
    by (simp add: Cons.IH count_removeListener eq)
qed

section \<open>Properties of waitForEvent\<close>

lemmas Inv_defs = Inv_def pipeline_def sourced_def source_def resources_def staged_def

lemma first_reaction_append:
  "first_reaction (q @ q') = (case first_reaction q of Some c \<Rightarrow> Some c | None \<Rightarrow> first_reaction q')"
  by (induction q rule: first_reaction.induct) simp_all

lemma first_reaction_mem: "first_reaction q = Some c \<Longrightarrow> RaceReaction c \<in> set q"
  by (induction q rule: first_reaction.induct) simp_all

lemma Inv_init: "Inv A E (waitForEvent A E abort)"
  by (auto simp: Inv_defs waitForEvent_def addEventListener_def on_def split: option.splits)

text \<open>The elementary changes of state keep the invariant.\<close>

lemma Inv_settle: "Inv A E s \<Longrightarrow> Inv A E (settle c s)"
  by (auto simp: Inv_defs settle_def first_reaction_append split: option.splits)

lemma Inv_abort_settle: "Inv A E s \<Longrightarrow> Inv A E (abort_settle c s)"
  by (auto simp: Inv_defs abort_settle_def first_reaction_append split: option.splits)

lemma Inv_captured: "Inv A E s \<Longrightarrow> Inv A E (s\<lparr>captured := p\<rparr>)"
  by (auto simp: Inv_defs split: option.splits)

lemma Inv_alreadyResolved: "Inv A E s \<Longrightarrow> Inv A E (s\<lparr>alreadyResolved := b\<rparr>)"
  by (auto simp: Inv_defs split: option.splits)

lemma Inv_following: "Inv A E s \<Longrightarrow> Inv A E (s\<lparr>following := f\<rparr>)"
  by (auto simp: Inv_defs split: option.splits)

lemma Inv_thenables: "Inv A E s \<Longrightarrow> Inv A E (s\<lparr>thenables := T\<rparr>)"
  by (auto simp: Inv_defs split: option.splits)

lemma Inv_enqueue_resolve:
  "Inv A E s \<Longrightarrow> Inv A E (s\<lparr>microtasks := microtasks s @ [ResolveThenable i]\<rparr>)"
  by (auto simp: Inv_defs first_reaction_append split: option.splits)

lemma Inv_enqueue_reaction:
  "Inv A E s \<Longrightarrow> Inv A E (s\<lparr>microtasks := microtasks s @ [ThenableReaction c]\<rparr>)"
  by (auto simp: Inv_defs first_reaction_append split: option.splits)

text \<open>
  What the resolving functions and the handler keep: any property that the state of the
  predicate, the flag, a settlement of \<open>promise\<close> and a queued \<open>ResolveThenable\<close> job keep.
\<close>

lemma resolveCallback_preserves:
  assumes flag: "\<And>s. P s \<Longrightarrow> P (s\<lparr>alreadyResolved := True\<rparr>)"
    and settled: "\<And>s c. P s \<Longrightarrow> P (settle c s)"
    and queued: "\<And>s i. P s \<Longrightarrow> P (s\<lparr>microtasks := microtasks s @ [ResolveThenable i]\<rparr>)"
    and start: "P s"
  shows "P (resolveCallback v s)"
proof (cases "alreadyResolved s")
  case True
  with start show ?thesis by (simp add: resolveCallback_def)
next
  case False
  show ?thesis
  proof (cases v)
    case (Plain u)
    with False settled [OF flag [OF start]] show ?thesis
      by (simp add: resolveCallback_def)
  next
    case (Thenable i)
    with False queued [OF flag [OF start], of i] show ?thesis
      by (simp add: resolveCallback_def)
  qed
qed

lemma rejectCallback_preserves:
  assumes flag: "\<And>s. P s \<Longrightarrow> P (s\<lparr>alreadyResolved := True\<rparr>)"
    and settled: "\<And>s c. P s \<Longrightarrow> P (settle c s)"
    and start: "P s"
  shows "P (rejectCallback e s)"
  using start settled [OF flag [OF start]] by (simp add: rejectCallback_def)

lemma handler_body_preserves:
  assumes pred: "\<And>s p. P s \<Longrightarrow> P (s\<lparr>captured := p\<rparr>)"
    and flag: "\<And>s. P s \<Longrightarrow> P (s\<lparr>alreadyResolved := True\<rparr>)"
    and settled: "\<And>s c. P s \<Longrightarrow> P (settle c s)"
    and queued: "\<And>s i. P s \<Longrightarrow> P (s\<lparr>microtasks := microtasks s @ [ResolveThenable i]\<rparr>)"
    and start: "P s"
  shows "P (handler_body A v s)"
proof (cases "arg_predicate A (captured s) v")
  case (Pair res p)
  have p: "P (s\<lparr>captured := p\<rparr>)" using start by (rule pred)
  show ?thesis
  proof (cases res)
    case (Returns r)
    show ?thesis
    proof (cases "truthy r")
      case True
      have "P (resolveCallback v (s\<lparr>captured := p\<rparr>))"
        using flag settled queued p by (rule resolveCallback_preserves)
      with Pair Returns True show ?thesis by (simp add: handler_body_def)
    next
      case False
      with Pair Returns p show ?thesis by (simp add: handler_body_def)
    qed
  next
    case (Throws e)
    have "P (rejectCallback e (s\<lparr>captured := p\<rparr>))"
      using flag settled p by (rule rejectCallback_preserves)
    with Pair Throws show ?thesis by (simp add: handler_body_def)
  qed
qed

lemma emit_preserves:
  assumes step: "\<And>s'. P s' \<Longrightarrow> P (handler_body A v s')" and start: "P s"
  shows "P (emit A e n v s)"
proof -
  have "P (fold (\<lambda>g s'. case g of WaitHandler \<Rightarrow> handler_body A v s' | External i \<Rightarrow> s') xs s')"
    if "P s'" for xs s'
    using that
  proof (induction xs arbitrary: s')
    case Nil
    then show ?case by simp
  next
    case (Cons x xs)
    show ?case
      by (cases x) (simp_all add: Cons.IH Cons.prems step)
  qed
  with start show ?thesis by (simp add: emit_def)
qed

lemma Inv_handler_body: "Inv A E s \<Longrightarrow> Inv A E (handler_body A v s)"
  by (rule handler_body_preserves)
     (simp_all add: Inv_captured Inv_alreadyResolved Inv_settle Inv_enqueue_resolve)

lemma Inv_rejectCallback: "Inv A E s \<Longrightarrow> Inv A E (rejectCallback e s)"
  by (rule rejectCallback_preserves) (simp_all add: Inv_alreadyResolved Inv_settle)

lemma Inv_emit: "Inv A E s \<Longrightarrow> Inv A E (emit A e n v s)"
  by (rule emit_preserves) (simp_all add: Inv_handler_body)

lemma Inv_thenable_settle:
  assumes "Inv A E s"
  shows "Inv A E (thenable_settle i c s)"
proof -
  have "Inv A E (s\<lparr>thenables := T\<rparr>)" for T
    using assms by (rule Inv_thenables)
  moreover have
    "Inv A E ((s\<lparr>thenables := T\<rparr>)\<lparr>microtasks := microtasks (s\<lparr>thenables := T\<rparr>) @ [ThenableReaction c]\<rparr>)"
    for T
    using assms by (intro Inv_enqueue_reaction Inv_thenables)
  ultimately show ?thesis
    using assms by (simp add: thenable_settle_def)
qed

lemma Inv_tick: "Inv A E s \<Longrightarrow> Inv A E (tick s)"
proof (cases "microtasks s")
  case Nil
  assume "Inv A E s"
  with Nil show ?thesis by (simp add: tick_def)
next
  case (Cons j js)
  assume inv: "Inv A E s"
  show ?thesis
  proof (cases j)
    case (ResolveThenable i)
    with Cons inv show ?thesis
      by (auto simp: tick_def Inv_defs first_reaction_append split: option.splits)
  next
    case (ThenableReaction c)
    with Cons inv show ?thesis
      by (auto simp: tick_def Inv_defs settle_def first_reaction_append split: option.splits)
  next
    case (RaceReaction c)
    with Cons inv show ?thesis
      by (auto simp: tick_def Inv_defs split: option.splits)
  next
    case (ThenReaction c)
    with Cons inv show ?thesis
      by (auto simp: tick_def Inv_defs cleanup_def removeEventListeners_def removeListener_def
            Let_def split: option.splits if_splits)
  next
    case (AwaitResume c)
    with Cons inv show ?thesis
      by (auto simp: tick_def Inv_defs split: option.splits if_splits)
  qed
qed

lemma drain_empty: "microtasks (drain s) = []"
  by (induction s rule: drain.induct) (simp add: drain.simps)

lemma drain_idle: "microtasks s = [] \<Longrightarrow> drain s = s"
  by (simp add: drain.simps)

lemma Inv_drain: "Inv A E s \<Longrightarrow> Inv A E (drain s)"
proof (induction s rule: drain.induct)
  case (1 s)
  show ?case
  proof (cases "microtasks s = []")
    case True
    with "1.prems" show ?thesis by (simp add: drain.simps)
  next
    case False
    have "Inv A E (drain (tick s))"
      using False "1.prems" by (intro "1.IH") (simp_all add: Inv_tick)
    with False show ?thesis by (simp add: drain.simps)
  qed
qed

lemma Inv_timer_fire: "Inv A E s \<Longrightarrow> Inv A E (timer_fire A s)"
proof -
  assume "Inv A E s"
  then have d: "Inv A E (drain s)" by (rule Inv_drain)
  show ?thesis
  proof (cases "eventTimeout (drain s) = Armed")
    case False
    with d show ?thesis by (simp add: timer_fire_def Let_def)
  next
    case True
    with d have "Inv A E ((drain s)\<lparr>eventTimeout := Fired\<rparr>)"
      by (auto simp: Inv_defs split: option.splits if_splits)
    then have "Inv A E (rejectCallback e ((drain s)\<lparr>eventTimeout := Fired\<rparr>))" for e
      by (rule Inv_rejectCallback)
    with True show ?thesis
      by (simp add: timer_fire_def Let_def timer_callback_def)
  qed
qed

lemma Inv_step: "Inv A E s \<Longrightarrow> Inv A E (step A a s)"
  by (cases a)
     (simp_all add: Inv_emit Inv_abort_settle Inv_thenable_settle Inv_tick Inv_timer_fire)

lemma Inv_fold: "Inv A E s \<Longrightarrow> Inv A E (fold (step A) acts s)"
  by (induction acts arbitrary: s) (simp_all add: Inv_step)

lemma Inv_run: "Inv A E (run A E abort acts)"
  by (simp add: run_def Inv_fold Inv_init)

text \<open>Once the winner of the race is known it stays the winner.\<close>

lemma decided_settle: "decided s = Some c \<Longrightarrow> decided (settle c' s) = Some c"
  by (auto simp: decided_def settle_def first_reaction_append split: option.splits)

lemma decided_abort_settle: "decided s = Some c \<Longrightarrow> decided (abort_settle c' s) = Some c"
  by (auto simp: decided_def abort_settle_def first_reaction_append split: option.splits)

lemma decided_thenable_settle:
  "decided s = Some c \<Longrightarrow> decided (thenable_settle i c' s) = Some c"
  by (auto simp: decided_def thenable_settle_def first_reaction_append split: option.splits)

lemma decided_handler_body:
  "decided s = Some c \<Longrightarrow> decided (handler_body A v s) = Some c"
  by (rule handler_body_preserves)
     (auto simp: decided_settle, auto simp: decided_def first_reaction_append split: option.splits)

lemma decided_rejectCallback:
  "decided s = Some c \<Longrightarrow> decided (rejectCallback e s) = Some c"
  by (rule rejectCallback_preserves)
     (auto simp: decided_settle, auto simp: decided_def split: option.splits)

lemma decided_emit: "decided s = Some c \<Longrightarrow> decided (emit A e n v s) = Some c"
  by (rule emit_preserves) (simp_all add: decided_handler_body)

lemma race_run_job: "race s = Some c \<Longrightarrow> race (run_job j s) = Some c"
  by (cases j) (simp_all add: cleanup_def settle_def Let_def split: prod.splits option.splits)

lemma race_tick: "race s = Some c \<Longrightarrow> race (tick s) = Some c"
  by (cases "microtasks s") (simp_all add: tick_def race_run_job)

lemma decided_tick:
  assumes "decided s = Some c"
  shows "decided (tick s) = Some c"
proof (cases "race s")
  case (Some c')
  with assms have "race s = Some c" by (simp add: decided_def)
  then have "race (tick s) = Some c" by (rule race_tick)
  then show ?thesis by (simp add: decided_def)
next
  case None
  with assms have first: "first_reaction (microtasks s) = Some c"
    by (simp add: decided_def)
  then obtain j js where q: "microtasks s = j # js"
    by (cases "microtasks s") auto
  show ?thesis
  proof (cases j)
    case (ResolveThenable i)
    with None first q show ?thesis
      by (auto simp: decided_def tick_def first_reaction_append split: option.splits)
  next
    case (ThenableReaction c')
    with None first q show ?thesis
      by (auto simp: decided_def tick_def settle_def first_reaction_append split: option.splits)
  next
    case (RaceReaction c')
    with None first q show ?thesis
      by (simp add: decided_def tick_def)
  next
    case (ThenReaction c')
    with None first q show ?thesis
      by (auto simp: decided_def tick_def cleanup_def Let_def first_reaction_append
            split: option.splits prod.splits)
  next
    case (AwaitResume c')
    with None first q show ?thesis
      by (auto simp: decided_def tick_def split: option.splits)
  qed
qed

lemma decided_drain: "decided s = Some c \<Longrightarrow> decided (drain s) = Some c"
proof (induction s rule: drain.induct)
  case (1 s)
  show ?case
  proof (cases "microtasks s = []")
    case True
    with "1.prems" show ?thesis by (simp add: drain.simps)
  next
    case False
    have "decided (drain (tick s)) = Some c"
      using False "1.prems" by (intro "1.IH") (simp_all add: decided_tick)
    with False show ?thesis by (simp add: drain.simps)
  qed
qed

lemma decided_timer_fire: "decided s = Some c \<Longrightarrow> decided (timer_fire A s) = Some c"
proof -
  assume "decided s = Some c"
  then have d: "decided (drain s) = Some c" by (rule decided_drain)
  then have "decided ((drain s)\<lparr>eventTimeout := Fired\<rparr>) = Some c"
    by (simp add: decided_def split: option.splits)
  then have "decided (rejectCallback e ((drain s)\<lparr>eventTimeout := Fired\<rparr>)) = Some c" for e
    by (rule decided_rejectCallback)
  with d show ?thesis
    by (simp add: timer_fire_def Let_def timer_callback_def)
qed

lemma decided_step: "decided s = Some c \<Longrightarrow> decided (step A a s) = Some c"
  by (cases a)
     (simp_all add: decided_emit decided_abort_settle decided_thenable_settle decided_tick
        decided_timer_fire)

lemma decided_fold: "decided s = Some c \<Longrightarrow> decided (fold (step A) acts s) = Some c"
  by (induction acts arbitrary: s) (simp_all add: decided_step)

lemma quiescent:
  assumes "Inv A E s" and "decided s = Some c" and "microtasks s = []"
  shows "race s = Some c \<and> chained s = Some c \<and> returned s = Some (after_await c)"
  using assms
  by (auto simp: Inv_def pipeline_def decided_def staged_def split: option.splits)

lemma drained:
  assumes "Inv A E s" and "decided s = Some c"
  shows "returned (drain s) = Some (after_await c)"
  using quiescent [OF Inv_drain [OF assms(1)] decided_drain [OF assms(2)] drain_empty] by simp

text \<open>
  A run of idle actions changes nothing but the state of the predicate and the thenables:
  \<open>idle_state A E p T\<close> is the state of the call after such a run.
\<close>

lemma fold_externals:
  "fold (\<lambda>g s'. case g of WaitHandler \<Rightarrow> h s' | External i \<Rightarrow> s') (map External xs) s = s"
  by (induction xs) simp_all

lemma emit_initial:
  "emit A e n v ((waitForEvent A E abort)\<lparr>captured := p, thenables := T\<rparr>) =
     (if e = arg_emitter A \<and> n = arg_eventName A
      then handler_body A v ((waitForEvent A E abort)\<lparr>captured := p, thenables := T\<rparr>)
      else (waitForEvent A E abort)\<lparr>captured := p, thenables := T\<rparr>)"
  by (simp add: emit_def waitForEvent_def addEventListener_def on_def fold_externals)

lemma initial_captured:
  "(waitForEvent A E abort)\<lparr>captured := arg_captured A, thenables := (\<lambda>i. None)\<rparr> =
     waitForEvent A E abort"
  by (simp add: waitForEvent_def addEventListener_def)

lemma idle_prefix_fold:
  "idle_prefix A p pre = Some p' \<Longrightarrow>
   \<exists>T'. fold (step A) pre ((waitForEvent A E None)\<lparr>captured := p, thenables := T\<rparr>) =
           (waitForEvent A E None)\<lparr>captured := p', thenables := T'\<rparr>"
proof (induction pre arbitrary: p T)
  case Nil
  then show ?case by auto
next
  case (Cons a pre)
  let ?s = "(waitForEvent A E None)\<lparr>captured := p, thenables := T\<rparr>"
  show ?case
  proof (cases a)
    case (Emit em n v)
    show ?thesis
    proof (cases "em = arg_emitter A \<and> n = arg_eventName A")
      case False
      with Cons.prems Emit have "idle_prefix A p pre = Some p'" by auto
      from Cons.IH [OF this, of T] False Emit show ?thesis by (auto simp: emit_initial)
    next
      case True
      with Cons.prems Emit obtain r q where
        r: "arg_predicate A p v = (Returns r, q)" "\<not> truthy r" "idle_prefix A q pre = Some p'"
        by (auto split: prod.splits pred_result.splits if_splits)
      have "step A a ?s = (waitForEvent A E None)\<lparr>captured := q, thenables := T\<rparr>"
        using True Emit r(1,2) by (simp add: emit_initial handler_body_def)
      with Cons.IH [OF r(3), of T] show ?thesis by simp
    qed
  next
    case (Settle c)
    with Cons.prems show ?thesis by simp
  next
    case (SettleThenable i c)
    with Cons.prems have rest: "idle_prefix A p pre = Some p'" by simp
    have "\<exists>T'. step A a ?s = (waitForEvent A E None)\<lparr>captured := p, thenables := T'\<rparr>"
    proof (cases "T i")
      case None
      then have "step A a ?s = (waitForEvent A E None)\<lparr>captured := p, thenables := T(i := Some c)\<rparr>"
        using SettleThenable
        by (simp add: thenable_settle_def) (simp add: waitForEvent_def addEventListener_def)
      then show ?thesis by blast
    next
      case (Some c')
      then have "step A a ?s = ?s"
        using SettleThenable by (simp add: thenable_settle_def)
      then show ?thesis by blast
    qed
    then obtain T' where
      "step A a ?s = (waitForEvent A E None)\<lparr>captured := p, thenables := T'\<rparr>" ..
    with Cons.IH [OF rest, of T'] show ?thesis by simp
  next
    case Tick
    with Cons.prems have "idle_prefix A p pre = Some p'" by simp
    moreover have "step A a ?s = ?s"
      using Tick by (simp add: tick_def waitForEvent_def addEventListener_def)
    ultimately show ?thesis using Cons.IH [of p T] by simp
  next
    case TimerFire
    with Cons.prems have t: "\<not> truthy_number (arg_timeout A)"
      and rest: "idle_prefix A p pre = Some p'"
      by (auto split: if_splits)
    have "drain ?s = ?s"
      by (rule drain_idle) (simp add: waitForEvent_def addEventListener_def)
    then have "step A a ?s = ?s"
      using TimerFire t
      by (simp add: timer_fire_def Let_def) (simp add: waitForEvent_def addEventListener_def)
    with rest show ?thesis using Cons.IH [of p T] by simp
  qed
qed

lemma idle_run:
  assumes "idle_prefix A (arg_captured A) pre = Some p"
  shows "\<exists>T. run A E None pre = (waitForEvent A E None)\<lparr>captured := p, thenables := T\<rparr>"
  using idle_prefix_fold [OF assms, where E = E and T = "\<lambda>i. None"]
  by (simp add: run_def initial_captured)

lemma run_append: "run A E abort (pre @ post) = fold (step A) post (run A E abort pre)"
  by (simp add: run_def)

lemma source_decided:
  assumes "Inv A E s" and "promise s \<noteq> None \<or> abortPromise s \<noteq> None"
  shows "\<exists>c. decided s = Some c"
proof (cases "race s")
  case (Some c)
  then show ?thesis by (simp add: decided_def)
next
  case None
  with assms have "first_reaction (microtasks s) \<noteq> None"
    by (auto simp: Inv_def pipeline_def)
  with None show ?thesis by (auto simp: decided_def)
qed

lemma decided_source:
  assumes "Inv A E s" and "decided s = Some c"
  shows "source s c"
  using assms
  by (auto simp: Inv_def sourced_def decided_def dest: first_reaction_mem split: option.splits)

lemma settled_quiescent:
  assumes "Inv A E s" and "chained s \<noteq> None"
  shows "cleaned_up A E s"
  using assms by (auto simp: Inv_def resources_def cleaned_up_def split: if_splits)

lemma returned_settled:
  assumes "Inv A E s" and "returned s \<noteq> None"
  shows "cleaned_up A E s"
proof -
  from assms have "chained s \<noteq> None"
    by (auto simp: Inv_def pipeline_def split: option.splits)
  with assms(1) show ?thesis by (rule settled_quiescent)
qed

lemma cleanup_at_most_once: "Inv A E s \<Longrightarrow> cleanup_calls s \<le> 1"
  by (simp add: Inv_def resources_def)

text \<open>What follows the first source that fires.\<close>

lemma determined:
  assumes inv: "Inv A E s" and dec: "decided s = Some c"
  shows "returned (drain (fold (step A) post s)) = Some (after_await c)"
    and "cleaned_up A E (drain (fold (step A) post s))"
    and "returned (fold (step A) post s) = None \<or> returned (fold (step A) post s) = Some (after_await c)"
proof -
  let ?t = "fold (step A) post s"
  have i: "Inv A E ?t" using inv by (rule Inv_fold)
  have d: "decided ?t = Some c" using dec by (rule decided_fold)
  have q: "race (drain ?t) = Some c \<and> chained (drain ?t) = Some c \<and>
           returned (drain ?t) = Some (after_await c)"
    using quiescent [OF Inv_drain [OF i] decided_drain [OF d] drain_empty] .
  then show "returned (drain ?t) = Some (after_await c)" by simp
  from q have "chained (drain ?t) \<noteq> None" by simp
  with Inv_drain [OF i] show "cleaned_up A E (drain ?t)" by (rule settled_quiescent)
  from i d show "returned ?t = None \<or> returned ?t = Some (after_await c)"
    by (auto simp: Inv_def pipeline_def decided_def split: option.splits)
qed

text \<open>The promise the call returned does not change once it is settled.\<close>

lemma returned_handler_body: "returned (handler_body A v s) = returned s"
proof -
  have "returned (handler_body A v s) = r" if "returned s = r" for r
    by (rule handler_body_preserves) (simp_all add: that settle_def)
  then show ?thesis by simp
qed

lemma returned_rejectCallback: "returned (rejectCallback e s) = returned s"
  by (simp add: rejectCallback_def settle_def)

lemma returned_emit: "returned (emit A e n v s) = returned s"
proof -
  have "returned (emit A e n v s) = r" if "returned s = r" for r
    by (rule emit_preserves) (simp_all add: that returned_handler_body)
  then show ?thesis by simp
qed

lemma returned_tick:
  assumes "Inv A E s" and "returned s = Some r"
  shows "returned (tick s) = Some r"
proof (cases "microtasks s")
  case Nil
  with assms show ?thesis by (simp add: tick_def)
next
  case (Cons j js)
  from assms have st: "staged s = []"
    by (auto simp: Inv_def pipeline_def split: option.splits)
  with Cons have "\<not> after_race j"
    by (auto simp: staged_def split: if_splits)
  with Cons assms(2) show ?thesis
    by (cases j) (simp_all add: tick_def settle_def split: option.splits)
qed

lemma returned_drain:
  "Inv A E s \<Longrightarrow> returned s = Some r \<Longrightarrow> returned (drain s) = Some r"
proof (induction s rule: drain.induct)
  case (1 s)
  show ?case
  proof (cases "microtasks s = []")
    case True
    with "1.prems" show ?thesis by (simp add: drain.simps)
  next
    case False
    have "returned (drain (tick s)) = Some r"
      using False "1.prems" by (intro "1.IH") (simp_all add: Inv_tick returned_tick)
    with False show ?thesis by (simp add: drain.simps)
  qed
qed

lemma returned_timer_fire:
  assumes "Inv A E s" and "returned s = Some r"
  shows "returned (timer_fire A s) = Some r"
proof -
  from assms have "returned (drain s) = Some r" by (rule returned_drain)
  then show ?thesis
    by (simp add: timer_fire_def Let_def timer_callback_def returned_rejectCallback)
qed

lemma returned_step:
  assumes "Inv A E s" and "returned s = Some r"
  shows "returned (step A a s) = Some r"
  using assms
  by (cases a)
     (simp_all add: returned_emit returned_tick returned_timer_fire abort_settle_def
        thenable_settle_def)

lemma returned_fold:
  "Inv A E s \<Longrightarrow> returned s = Some r \<Longrightarrow> returned (fold (step A) acts s) = Some r"
  by (induction acts arbitrary: s) (simp_all add: Inv_step returned_step)

text \<open>Once a source has fired, the callback of the timer cannot run any more.\<close>

lemma timer_fire_decided:
  assumes "Inv A E s" and "decided s = Some c"
  shows "timer_fire A s = drain s"
proof -
  have "chained (drain s) \<noteq> None"
    using quiescent [OF Inv_drain [OF assms(1)] decided_drain [OF assms(2)] drain_empty] by simp
  with Inv_drain [OF assms(1)] have "eventTimeout (drain s) \<noteq> Armed"
    by (auto simp: Inv_def resources_def split: if_splits)
  then show ?thesis by (simp add: timer_fire_def Let_def)
qed

lemma unfired_handler_body: "eventTimeout (handler_body A v s) = eventTimeout s"
proof -
  have "eventTimeout (handler_body A v s) = t" if "eventTimeout s = t" for t
    by (rule handler_body_preserves) (simp_all add: that settle_def)
  then show ?thesis by simp
qed

lemma unfired_emit: "eventTimeout (emit A e n v s) = eventTimeout s"
proof -
  have "eventTimeout (emit A e n v s) = t" if "eventTimeout s = t" for t
    by (rule emit_preserves) (simp_all add: that unfired_handler_body)
  then show ?thesis by simp
qed

lemma unfired_run_job: "eventTimeout s \<noteq> Fired \<Longrightarrow> eventTimeout (run_job j s) \<noteq> Fired"
  by (cases j; cases "eventTimeout s")
     (simp_all add: cleanup_def settle_def Let_def split: prod.splits option.splits)

lemma unfired_tick: "eventTimeout s \<noteq> Fired \<Longrightarrow> eventTimeout (tick s) \<noteq> Fired"
  by (cases "microtasks s") (simp_all add: tick_def unfired_run_job)

lemma unfired_drain: "eventTimeout s \<noteq> Fired \<Longrightarrow> eventTimeout (drain s) \<noteq> Fired"
proof (induction s rule: drain.induct)
  case (1 s)
  show ?case
  proof (cases "microtasks s = []")
    case True
    with "1.prems" show ?thesis by (simp add: drain.simps)
  next
    case False
    have "eventTimeout (drain (tick s)) \<noteq> Fired"
      using False "1.prems" by (intro "1.IH") (simp_all add: unfired_tick)
    with False show ?thesis by (simp add: drain.simps)
  qed
qed

lemma unfired_step:
  assumes "Inv A E s" and "decided s = Some c" and "eventTimeout s \<noteq> Fired"
  shows "eventTimeout (step A a s) \<noteq> Fired"
  using assms
  by (cases a)
     (simp_all add: unfired_emit unfired_tick unfired_drain timer_fire_decided abort_settle_def
        thenable_settle_def)

lemma unfired_fold:
  "Inv A E s \<Longrightarrow> decided s = Some c \<Longrightarrow> eventTimeout s \<noteq> Fired \<Longrightarrow>
   eventTimeout (fold (step A) acts s) \<noteq> Fired"
  by (induction acts arbitrary: s) (simp_all add: Inv_step decided_step unfired_step)

lemma cancelled:
  assumes inv: "Inv A E s" and dec: "decided s = Some c"
    and unfired: "eventTimeout s \<noteq> Fired" and armed: "truthy_number (arg_timeout A)"
  shows "eventTimeout (drain (fold (step A) post s)) = Cleared"
proof -
  let ?t = "drain (fold (step A) post s)"
  have i: "Inv A E ?t" using inv by (intro Inv_drain Inv_fold)
  have "chained ?t \<noteq> None"
    using quiescent [OF i decided_drain [OF decided_fold [OF dec]] drain_empty] by simp
  moreover have "eventTimeout ?t \<noteq> Fired"
    using inv dec unfired by (intro unfired_drain unfired_fold)
  ultimately show ?thesis
    using i armed by (auto simp: Inv_def resources_def split: if_splits)
qed

text \<open>
  The first action that is not idle and settles a source decides the call: what the caller
  gets, that cleanup has run by then, and that the timer did not fire if it had not fired at
  that action.
\<close>

lemma first_source:
  assumes pre: "idle_prefix A (arg_captured A) pre = Some p"
    and dec: "\<And>T. decided (step A a ((waitForEvent A E None)\<lparr>captured := p, thenables := T\<rparr>))
                 = Some c"
  shows "outcome A E None (pre @ a # post) = Some (after_await c)"
    and "cleaned_up A E (drain (run A E None (pre @ a # post)))"
    and "returned (run A E None (pre @ a # post)) = None \<or>
         returned (run A E None (pre @ a # post)) = Some (after_await c) \<and>
         cleaned_up A E (run A E None (pre @ a # post))"
    and "(\<And>T. eventTimeout (step A a ((waitForEvent A E None)\<lparr>captured := p, thenables := T\<rparr>))
               \<noteq> Fired) \<Longrightarrow>
         truthy_number (arg_timeout A) \<Longrightarrow>
         eventTimeout (drain (run A E None (pre @ a # post))) = Cleared"
proof -
  from idle_run [OF pre, of E] obtain T where
    idle: "run A E None pre = (waitForEvent A E None)\<lparr>captured := p, thenables := T\<rparr>" ..
  let ?s = "step A a ((waitForEvent A E None)\<lparr>captured := p, thenables := T\<rparr>)"
  have inv: "Inv A E ?s"
    by (intro Inv_step Inv_thenables Inv_captured Inv_init)
  have d: "decided ?s = Some c" by (rule dec)
  have eq: "run A E None (pre @ a # post) = fold (step A) post ?s"
    by (simp add: run_append idle)
  show "outcome A E None (pre @ a # post) = Some (after_await c)"
    using determined(1) [OF inv d] by (simp add: outcome_def eq)
  show "cleaned_up A E (drain (run A E None (pre @ a # post)))"
    using determined(2) [OF inv d] by (simp add: eq)
  have "Inv A E (fold (step A) post ?s)" using inv by (rule Inv_fold)
  then show "returned (run A E None (pre @ a # post)) = None \<or>
         returned (run A E None (pre @ a # post)) = Some (after_await c) \<and>
         cleaned_up A E (run A E None (pre @ a # post))"
    using determined(3) [OF inv d, of post] returned_settled [of A E "fold (step A) post ?s"]
    by (auto simp: eq)
  show "eventTimeout (drain (run A E None (pre @ a # post))) = Cleared"
    if "\<And>T. eventTimeout (step A a ((waitForEvent A E None)\<lparr>captured := p, thenables := T\<rparr>))
              \<noteq> Fired"
      and "truthy_number (arg_timeout A)"
    using cancelled [OF inv d that(1) that(2)] by (simp add: eq)
qed

lemma decided_abort_first:
  "decided (step A (Settle c) ((waitForEvent A E None)\<lparr>captured := p, thenables := T\<rparr>)) = Some c"
  by (simp add: abort_settle_def waitForEvent_def addEventListener_def decided_def)

lemma decided_match_first:
  assumes "arg_predicate A p (Plain v) = (Returns r, p')" and "truthy r"
  shows "decided (step A (Emit (arg_emitter A) (arg_eventName A) (Plain v))
                    ((waitForEvent A E None)\<lparr>captured := p, thenables := T\<rparr>))
           = Some (Fulfilled v)"
  using assms
  by (simp add: emit_initial handler_body_def)
     (simp add: resolveCallback_def settle_def waitForEvent_def addEventListener_def decided_def)

lemma decided_throw_first:
  assumes "arg_predicate A p v = (Throws x, p')"
  shows "decided (step A (Emit (arg_emitter A) (arg_eventName A) v)
                    ((waitForEvent A E None)\<lparr>captured := p, thenables := T\<rparr>))
           = Some (Rejected x)"
  using assms
  by (simp add: emit_initial handler_body_def)
     (simp add: rejectCallback_def settle_def waitForEvent_def addEventListener_def decided_def)

lemma unfired_emit_first:
  "eventTimeout (step A (Emit em n v) ((waitForEvent A E None)\<lparr>captured := p, thenables := T\<rparr>))
     \<noteq> Fired"
  by (simp add: unfired_emit) (simp add: waitForEvent_def addEventListener_def)

lemma decided_timer_first:
  assumes "truthy_number (arg_timeout A)"
  shows "decided (step A TimerFire ((waitForEvent A E None)\<lparr>captured := p, thenables := T\<rparr>))
           = Some (Rejected (Plain (TimeoutError (timeout_message (arg_eventName A)))))"
proof -
  let ?s = "(waitForEvent A E None)\<lparr>captured := p, thenables := T\<rparr>"
  have "drain ?s = ?s"
    by (rule drain_idle) (simp add: waitForEvent_def addEventListener_def)
  then show ?thesis
    using assms
    by (simp add: timer_fire_def Let_def timer_callback_def)
       (simp add: waitForEvent_def addEventListener_def rejectCallback_def settle_def decided_def)
qed

lemma decided_abort_settled:
  "decided (waitForEvent A E (Some c)) = Some c"
  by (simp add: waitForEvent_def addEventListener_def decided_def)

lemma positive_truthy: "positive t \<Longrightarrow> truthy_number t"
  by (cases t) auto

section \<open>Properties of waitWithTimeout\<close>

lemmas timeout_Inv_defs =
  timeout_Inv_def timeout_pipeline_def timeout_resources_def timeout_staged_def

lemma timeout_Inv_init: "timeout_Inv digits taskName timeout (waitWithTimeout digits p taskName timeout)"
  by (auto simp: timeout_Inv_defs waitWithTimeout_def split: option.splits)

lemma timeout_Inv_supplied_settle:
  "timeout_Inv digits taskName timeout s \<Longrightarrow> timeout_Inv digits taskName timeout (supplied_settle c s)"
  by (auto simp: timeout_Inv_defs supplied_settle_def split: option.splits)

lemma timeout_Inv_tick:
  assumes inv: "timeout_Inv digits taskName timeout s"
  shows "timeout_Inv digits taskName timeout (timeout_tick s)"
proof (cases "jobs s")
  case Nil
  with inv show ?thesis by (simp add: timeout_tick_def)
next
  case (Cons j js)
  show ?thesis
  proof (cases j)
    case (TimeoutRaceReaction c)
    with Cons inv show ?thesis
      by (auto simp: timeout_tick_def timeout_Inv_defs split: option.splits)
  next
    case (TimeoutAwaitResume c)
    with Cons inv show ?thesis
      by (auto simp: timeout_tick_def timeout_Inv_defs finally_block_def split: option.splits if_splits)
  qed
qed

lemma timeout_drain_empty: "jobs (timeout_drain s) = []"
  by (induction s rule: timeout_drain.induct) (simp add: timeout_drain.simps)

lemma timeout_drain_idle: "jobs s = [] \<Longrightarrow> timeout_drain s = s"
  by (simp add: timeout_drain.simps)

lemma timeout_Inv_drain:
  "timeout_Inv digits taskName timeout s \<Longrightarrow> timeout_Inv digits taskName timeout (timeout_drain s)"
proof (induction s rule: timeout_drain.induct)
  case (1 s)
  show ?case
  proof (cases "jobs s = []")
    case True
    with "1.prems" show ?thesis by (simp add: timeout_drain.simps)
  next
    case False
    have "timeout_Inv digits taskName timeout (timeout_drain (timeout_tick s))"
      using False "1.prems" by (intro "1.IH") (simp_all add: timeout_Inv_tick)
    with False show ?thesis by (simp add: timeout_drain.simps)
  qed
qed

lemma timeout_Inv_fire:
  assumes "timeout_Inv digits taskName timeout s"
  shows "timeout_Inv digits taskName timeout (timeout_fire s)"
proof -
  from assms have d: "timeout_Inv digits taskName timeout (timeout_drain s)"
    by (rule timeout_Inv_drain)
  show ?thesis
  proof (cases "timeoutTimer (timeout_drain s) = Armed")
    case False
    with d show ?thesis by (simp add: timeout_fire_def Let_def)
  next
    case True
    with d have "timeout_Inv digits taskName timeout
                   (reject (timeoutError (timeout_drain s)) ((timeout_drain s)\<lparr>timeoutTimer := Fired\<rparr>))"
      by (auto simp: timeout_Inv_defs reject_def timeout_drain_empty split: option.splits if_splits)
    with True show ?thesis by (simp add: timeout_fire_def Let_def)
  qed
qed

lemma timeout_Inv_step:
  "timeout_Inv digits taskName timeout s \<Longrightarrow> timeout_Inv digits taskName timeout (timeout_step a s)"
  by (cases a) (simp_all add: timeout_Inv_supplied_settle timeout_Inv_tick timeout_Inv_fire)

lemma timeout_Inv_fold:
  "timeout_Inv digits taskName timeout s \<Longrightarrow> timeout_Inv digits taskName timeout (fold timeout_step acts s)"
  by (induction acts arbitrary: s) (simp_all add: timeout_Inv_step)

lemma timeout_Inv_run: "timeout_Inv digits taskName timeout (timeout_run digits p taskName timeout acts)"
  by (simp add: timeout_run_def timeout_Inv_fold timeout_Inv_init)

lemma timeout_decided_supplied_settle:
  "timeout_decided s = Some c \<Longrightarrow> timeout_decided (supplied_settle c' s) = Some c"
  by (auto simp: timeout_decided_def supplied_settle_def split: option.splits list.splits timeout_job.splits)

lemma timeout_decided_reject:
  "timeout_decided s = Some c \<Longrightarrow> timeout_decided (reject e s) = Some c"
  by (auto simp: timeout_decided_def reject_def split: option.splits list.splits timeout_job.splits)

lemma raced_run_timeout_job: "raced s = Some c \<Longrightarrow> raced (run_timeout_job j s) = Some c"
  by (cases j) (simp_all add: finally_block_def)

lemma timeout_decided_tick:
  assumes "timeout_decided s = Some c"
  shows "timeout_decided (timeout_tick s) = Some c"
proof (cases "raced s")
  case (Some c')
  with assms have "raced s = Some c" by (simp add: timeout_decided_def)
  then have "raced (timeout_tick s) = Some c"
    by (cases "jobs s") (simp_all add: timeout_tick_def raced_run_timeout_job)
  then show ?thesis by (simp add: timeout_decided_def)
next
  case None
  with assms obtain js where "jobs s = TimeoutRaceReaction c # js"
    by (auto simp: timeout_decided_def split: list.splits timeout_job.splits)
  with None show ?thesis by (simp add: timeout_decided_def timeout_tick_def)
qed

lemma timeout_decided_drain:
  "timeout_decided s = Some c \<Longrightarrow> timeout_decided (timeout_drain s) = Some c"
proof (induction s rule: timeout_drain.induct)
  case (1 s)
  show ?case
  proof (cases "jobs s = []")
    case True
    with "1.prems" show ?thesis by (simp add: timeout_drain.simps)
  next
    case False
    have "timeout_decided (timeout_drain (timeout_tick s)) = Some c"
      using False "1.prems" by (intro "1.IH") (simp_all add: timeout_decided_tick)
    with False show ?thesis by (simp add: timeout_drain.simps)
  qed
qed

lemma timeout_decided_fire:
  assumes "timeout_decided s = Some c"
  shows "timeout_decided (timeout_fire s) = Some c"
proof -
  from assms have d: "timeout_decided (timeout_drain s) = Some c"
    by (rule timeout_decided_drain)
  then have "timeout_decided ((timeout_drain s)\<lparr>timeoutTimer := Fired\<rparr>) = Some c"
    by (simp add: timeout_decided_def split: option.splits)
  then have "timeout_decided (reject e ((timeout_drain s)\<lparr>timeoutTimer := Fired\<rparr>)) = Some c" for e
    by (rule timeout_decided_reject)
  with d show ?thesis by (simp add: timeout_fire_def Let_def)
qed

lemma timeout_decided_step:
  "timeout_decided s = Some c \<Longrightarrow> timeout_decided (timeout_step a s) = Some c"
  by (cases a)
     (simp_all add: timeout_decided_supplied_settle timeout_decided_tick timeout_decided_fire)

lemma timeout_decided_fold:
  "timeout_decided s = Some c \<Longrightarrow> timeout_decided (fold timeout_step acts s) = Some c"
  by (induction acts arbitrary: s) (simp_all add: timeout_decided_step)

lemma timeout_determined:
  assumes inv: "timeout_Inv digits taskName timeout s" and dec: "timeout_decided s = Some c"
  shows "result (timeout_drain (fold timeout_step post s)) = Some c"
proof -
  let ?t = "timeout_drain (fold timeout_step post s)"
  have "timeout_Inv digits taskName timeout ?t"
    using inv by (intro timeout_Inv_drain timeout_Inv_fold)
  moreover have "timeout_decided ?t = Some c"
    using dec by (intro timeout_decided_drain timeout_decided_fold)
  moreover have "jobs ?t = []" by (rule timeout_drain_empty)
  ultimately show ?thesis
    by (auto simp: timeout_Inv_defs timeout_decided_def split: option.splits)
qed

lemma timeout_undecided:
  assumes "timeout_Inv digits taskName timeout s" and "timeout_decided s = None"
  shows "jobs s = [] \<and> supplied s = None \<and> timeoutPromise s = None \<and> result s = None"
proof -
  from assms(2) have r: "raced s = None"
    by (auto simp: timeout_decided_def split: option.splits)
  with assms(1) have st: "timeout_staged s = []" "result s = None"
    by (auto simp: timeout_Inv_defs)
  have "jobs s = []"
  proof (cases "jobs s")
    case Nil then show ?thesis .
  next
    case (Cons j js)
    with st(1) obtain c where "j = TimeoutRaceReaction c"
      by (cases j) (auto simp: timeout_staged_def)
    with Cons r assms(2) show ?thesis by (simp add: timeout_decided_def)
  qed
  with assms(1) r st show ?thesis by (auto simp: timeout_Inv_defs)
qed

lemma quiet_step:
  "quiet a \<Longrightarrow> timeout_step a (waitWithTimeout digits None taskName timeout) = waitWithTimeout digits None taskName timeout"
  by (cases a) (simp_all add: timeout_tick_def waitWithTimeout_def)

lemma quiet_run:
  "list_all quiet pre \<Longrightarrow> timeout_run digits None taskName timeout pre = waitWithTimeout digits None taskName timeout"
  unfolding timeout_run_def by (induction pre) (simp_all add: quiet_step)

lemma timeout_run_append:
  "timeout_run digits p taskName timeout (pre @ post) = fold timeout_step post (timeout_run digits p taskName timeout pre)"
  by (simp add: timeout_run_def)

lemma timeout_after_first:
  assumes "list_all quiet pre"
    and "timeout_decided (timeout_step a (waitWithTimeout digits None taskName timeout)) = Some c"
  shows "timeout_outcome digits None taskName timeout (pre @ a # post) = Some c"
proof -
  have "timeout_Inv digits taskName timeout (timeout_step a (waitWithTimeout digits None taskName timeout))"
    by (intro timeout_Inv_step timeout_Inv_init)
  from timeout_determined [OF this assms(2)] show ?thesis
    by (simp add: timeout_outcome_def timeout_run_append quiet_run [OF assms(1)])
qed

lemma no_timer_step:
  assumes "\<And>c. a \<noteq> Settle c"
  shows "timeout_step a (waitWithTimeout digits None taskName (Finite 0)) =
           waitWithTimeout digits None taskName (Finite 0)"
proof (cases a)
  case (Emit em n v)
  then show ?thesis by simp
next
  case (Settle c)
  with assms [of c] show ?thesis by simp
next
  case (SettleThenable i c)
  then show ?thesis by simp
next
  case Tick
  then show ?thesis by (simp add: timeout_tick_def waitWithTimeout_def)
next
  case TimerFire
  have "timeout_drain (waitWithTimeout digits None taskName (Finite 0)) =
          waitWithTimeout digits None taskName (Finite 0)"
    by (rule timeout_drain_idle) (simp add: waitWithTimeout_def)
  with TimerFire show ?thesis
    by (simp add: timeout_fire_def Let_def) (simp add: waitWithTimeout_def)
qed

lemma no_timer_pending:
  "timeout_outcome digits None taskName (Finite 0) acts = await_directly None acts"
proof (induction acts)
  case Nil
  have "timeout_drain (waitWithTimeout digits None taskName (Finite 0)) =
          waitWithTimeout digits None taskName (Finite 0)"
    by (rule timeout_drain_idle) (simp add: waitWithTimeout_def)
  then show ?case
    by (simp add: timeout_outcome_def timeout_run_def) (simp add: waitWithTimeout_def)
next
  case (Cons a acts)
  show ?case
  proof (cases "\<exists>c. a = Settle c")
    case True
    then obtain c where a: "a = Settle c" by blast
    have "timeout_decided (timeout_step a (waitWithTimeout digits None taskName (Finite 0))) = Some c"
      by (simp add: a supplied_settle_def waitWithTimeout_def timeout_decided_def)
    from timeout_after_first [of "[]", OF _ this] show ?thesis
      by (simp add: a)
  next
    case False
    then have "timeout_step a (waitWithTimeout digits None taskName (Finite 0)) = waitWithTimeout digits None taskName (Finite 0)"
      by (intro no_timer_step) blast
    then have "timeout_outcome digits None taskName (Finite 0) (a # acts) = timeout_outcome digits None taskName (Finite 0) acts"
      by (simp add: timeout_outcome_def timeout_run_def)
    moreover from False have "await_directly None (a # acts) = await_directly None acts"
      by (cases a) simp_all
    ultimately show ?thesis using Cons.IH by simp
  qed
qed

lemma settled_at_call:
  "timeout_outcome digits (Some c) taskName timeout acts = Some c"
proof -
  have "timeout_decided (waitWithTimeout digits (Some c) taskName timeout) = Some c"
    by (simp add: waitWithTimeout_def timeout_decided_def)
  from timeout_determined [OF timeout_Inv_init this] show ?thesis
    by (simp add: timeout_outcome_def timeout_run_def)
qed

lemma no_timer_armed:
  "timeoutTimer (timeout_run digits p taskName (Finite 0) acts) = NoTimer \<and>
   timer_clears (timeout_run digits p taskName (Finite 0) acts) = 0"
  using timeout_Inv_run [of digits taskName "Finite 0" p acts]
  by (simp add: timeout_Inv_defs)

lemma removals_at_most_once: "Inv A E s \<Longrightarrow> removeListener_calls s \<le> 1"
  by (simp add: Inv_def resources_def)

lemma raced_outcome:
  assumes "Inv A E s" and "microtasks s = []" and "race s = Some c"
  shows "returned s = Some (after_await c)"
  using assms by (auto simp: Inv_def pipeline_def staged_def split: option.splits)

lemma timeout_decided_timer_first:
  assumes "truthy_number timeout"
  shows "timeout_decided (timeout_step TimerFire (waitWithTimeout digits None taskName timeout))
           = Some (Rejected (Plain (TimeoutError (timeout_text digits taskName timeout))))"
proof -
  have "timeout_drain (waitWithTimeout digits None taskName timeout) =
          waitWithTimeout digits None taskName timeout"
    by (rule timeout_drain_idle) (simp add: waitWithTimeout_def)
  then show ?thesis
    using assms
    by (simp add: timeout_fire_def Let_def)
       (simp add: waitWithTimeout_def reject_def timeout_decided_def)
qed

lemma timeout_decided_settle_first:
  "timeout_decided (timeout_step (Settle c) (waitWithTimeout digits None taskName timeout)) = Some c"
  by (simp add: supplied_settle_def waitWithTimeout_def timeout_decided_def)

lemma timeout_cleared_on_exit:
  assumes "timeout_Inv digits taskName timeout s" and "truthy_number timeout"
    and "result s \<noteq> None"
  shows "timeoutTimer s \<noteq> Armed \<and> timer_clears s = 1"
  using assms by (auto simp: timeout_Inv_defs split: if_splits)

lemma no_timeout_promise:
  "timeoutPromise (timeout_run digits p taskName (Finite 0) acts) = None"
  using timeout_Inv_run [of digits taskName "Finite 0" p acts]
  by (auto simp: timeout_Inv_defs)

lemma call_removeEventListeners_arrays:
  "arrays (call_removeEventListeners w r) r' = (if r' = r then [] else arrays w r')"
  by (simp add: call_removeEventListeners_def removeEventListeners_def splice_all)

lemma call_removeEventListeners_emitters:
  "emitters_of (call_removeEventListeners w r) =
     fold (\<lambda>l E'. removeListener E' (emitter l) (eventName l) (handler l)) (arrays w r) (emitters_of w)"
  by (simp add: call_removeEventListeners_def removeEventListeners_def)

lemma call_removeEventListeners_empty:
  "arrays w r = [] \<Longrightarrow> call_removeEventListeners w r = w"
  by (simp add: call_removeEventListeners_def removeEventListeners_empty fun_upd_idem)

text \<open>The definitions that evaluate a call on concrete actions.\<close>

lemmas wait_eval =
  outcome_def run_def waitForEvent_def addEventListener_def on_def emit_def handler_body_def
  resolveCallback_def rejectCallback_def settle_def abort_settle_def thenable_settle_def
  tick_def cleanup_def removeEventListeners_def removeListener_def splice_def timer_fire_def
  timer_callback_def timeout_message_def drain.simps cleaned_up_def example_args_def
  example_emitters_def counting_args_def second_call_def

lemma floor_three_halves: "\<lfloor>(3::rat) / 2\<rfloor> = 1"
  by (simp add: floor_eq_iff)

lemmas timeout_eval =
  timeout_outcome_def timeout_run_def waitWithTimeout_def reject_def supplied_settle_def
  finally_block_def timeout_tick_def timeout_fire_def timeout_text_def timeout_drain.simps
  safe_integer_def show_int_def digit_def example_digits_def floor_three_halves

section \<open>The claims\<close>

text \<open>
  C1. For every call of \<open>waitForEvent\<close> and whatever happens afterwards, cleanup runs at most
  once, and on any completion (a matched payload, a predicate exception, a timeout or the
  abort signal) it has run exactly once before the caller observes the outcome: when the
  promise of the call is settled, \<open>cleanup\<close>, \<open>removeListener\<close> and \<open>clearTimeout\<close> have each
  been called once, the handler is unsubscribed and no timer is armed. As soon as one of the
  sources has fired (\<^verbatim>\<open>promise\<close> or \<^verbatim>\<open>abortPromise\<close> is settled), the call does complete.
\<close>

theorem waitForEvent_cleanup_exactly_once:
  "cleanup_calls (run A E abort acts) \<le> 1 \<and>
   cleanup_calls (drain (run A E abort acts)) \<le> 1 \<and>
   (returned (run A E abort acts) \<noteq> None \<longrightarrow> cleaned_up A E (run A E abort acts)) \<and>
   (outcome A E abort acts \<noteq> None \<longrightarrow> cleaned_up A E (drain (run A E abort acts))) \<and>
   (promise (run A E abort acts) \<noteq> None \<or> abortPromise (run A E abort acts) \<noteq> None \<longrightarrow>
      outcome A E abort acts \<noteq> None)"
proof -
  let ?s = "run A E abort acts"
  have i: "Inv A E ?s" by (rule Inv_run)
  then have d: "Inv A E (drain ?s)" by (rule Inv_drain)
  have "outcome A E abort acts \<noteq> None"
    if "promise ?s \<noteq> None \<or> abortPromise ?s \<noteq> None"
  proof -
    from source_decided [OF i that] obtain c where "decided ?s = Some c" ..
    from drained [OF i this] show ?thesis by (simp add: outcome_def)
  qed
  then show ?thesis
    using cleanup_at_most_once [OF i] cleanup_at_most_once [OF d]
      returned_settled [OF i] returned_settled [OF d]
    by (auto simp: outcome_def)
qed

theorem waitForEvent_cleanup_exactly_once_witness:
  "returned (run example_args example_emitters None
      [Emit 0 (EvString ''load'') (Plain (Number (Finite 3))), Tick, Tick, Tick]) =
     Some (Fulfilled (Number (Finite 3))) \<and>
   cleaned_up example_args example_emitters
     (run example_args example_emitters None
        [Emit 0 (EvString ''load'') (Plain (Number (Finite 3))), Tick, Tick, Tick])"
  using waitForEvent_cleanup_exactly_once [of example_args example_emitters None
      "[Emit 0 (EvString ''load'') (Plain (Number (Finite 3))), Tick, Tick, Tick]"]
  by (simp add: wait_eval)

text \<open>
  C2. With a timeout \<open>t > 0\<close>, if nothing but idle actions happen before the timer expires
  (no event satisfies the predicate or makes it throw, the abort promise is pending), then
  \<open>waitForEvent\<close> fails with a \<open>TimeoutError\<close> whose message is exactly
  \<open>Timeout exceeded while waiting for <eventName>\<close>, and its listener is removed from the
  emitter, whatever happens after the expiry.
\<close>

theorem waitForEvent_timeout:
  assumes "positive (arg_timeout A)" and "idle_prefix A (arg_captured A) pre = Some p"
  shows "outcome A E None (pre @ TimerFire # post) =
           Some (Rejected (Plain (TimeoutError
             (''Timeout exceeded while waiting for '' @ String_of (arg_eventName A))))) \<and>
         cleaned_up A E (drain (run A E None (pre @ TimerFire # post)))"
proof -
  from assms(1) have "truthy_number (arg_timeout A)" by (rule positive_truthy)
  from first_source(1,2) [OF assms(2) decided_timer_first [OF this]]
  show ?thesis by (simp add: timeout_message_def)
qed

theorem waitForEvent_timeout_witness:
  "outcome example_args example_emitters None
     ([Emit 0 (EvString ''load'') (Plain (Number (Finite 0))), Tick,
       Emit 1 (EvString ''load'') (Plain (Number (Finite 5)))]
        @ TimerFire # [Emit 0 (EvString ''load'') (Plain (Number (Finite 3)))]) =
     Some (Rejected (Plain (TimeoutError ''Timeout exceeded while waiting for load''))) \<and>
   emitters
     (drain (run example_args example_emitters None
        ([Emit 0 (EvString ''load'') (Plain (Number (Finite 0))), Tick,
          Emit 1 (EvString ''load'') (Plain (Number (Finite 5)))]
           @ TimerFire # [Emit 0 (EvString ''load'') (Plain (Number (Finite 3)))])))
     0 (EvString ''load'') =
     [External 5]"
  using waitForEvent_timeout [where A = example_args and p = "()" and E = example_emitters
      and pre = "[Emit 0 (EvString ''load'') (Plain (Number (Finite 0))), Tick,
                  Emit 1 (EvString ''load'') (Plain (Number (Finite 5)))]"
      and post = "[Emit 0 (EvString ''load'') (Plain (Number (Finite 3)))]"]
  by (simp add: cleaned_up_def example_args_def example_emitters_def)

text \<open>
  C3, as amended. If only idle actions come before it (the predicate returned a falsy value
  on each of the earlier events, no timeout expiry, no abort) and the predicate, in the state
  those calls left it in, returns a truthy value on an event whose payload is neither an
  instance of \<open>Error\<close> nor a thenable, then \<open>waitForEvent\<close> resolves with that payload, and it
  performs no more than one listener removal.
\<close>

theorem waitForEvent_match:
  assumes "idle_prefix A (arg_captured A) pre = Some p"
    and "arg_predicate A p (Plain v) = (Returns r, p')" and "truthy r"
    and "\<not> instanceof_Error v"
  shows "outcome A E None (pre @ Emit (arg_emitter A) (arg_eventName A) (Plain v) # post) =
           Some (Fulfilled v) \<and>
         removeListener_calls
           (run A E None (pre @ Emit (arg_emitter A) (arg_eventName A) (Plain v) # post)) \<le> 1 \<and>
         removeListener_calls
           (drain (run A E None (pre @ Emit (arg_emitter A) (arg_eventName A) (Plain v) # post)))
           \<le> 1"
proof -
  let ?acts = "pre @ Emit (arg_emitter A) (arg_eventName A) (Plain v) # post"
  have "outcome A E None ?acts = Some (after_await (Fulfilled v))"
    by (rule first_source(1) [OF assms(1) decided_match_first [OF assms(2,3)]])
  moreover have "removeListener_calls (run A E None ?acts) \<le> 1"
    by (rule removals_at_most_once [OF Inv_run])
  moreover have "removeListener_calls (drain (run A E None ?acts)) \<le> 1"
    by (rule removals_at_most_once [OF Inv_drain [OF Inv_run]])
  ultimately show ?thesis using assms(4) by simp
qed

theorem waitForEvent_match_witness:
  "outcome counting_args example_emitters None
     ([Emit 0 (EvString ''load'') (Plain (Object 1))]
        @ Emit 0 (EvString ''load'') (Plain (Object 2)) # [TimerFire]) =
     Some (Fulfilled (Object 2))"
  using waitForEvent_match [where A = counting_args and p = 1 and p' = 2 and E = example_emitters
      and pre = "[Emit 0 (EvString ''load'') (Plain (Object 1))]" and v = "Object 2"
      and r = "Plain (Boolean True)" and post = "[TimerFire]"]
  by (simp add: counting_args_def second_call_def)

text \<open>
  C3 as stated fails in two ways. The predicate returns \<^verbatim>\<open>false\<close> on the first event and
  \<^verbatim>\<open>true\<close> on the second, and nothing else happens before it. When the second payload is an
  \<open>Error\<close>, the call throws it instead of resolving with it. When the second payload is a
  thenable, \<^verbatim>\<open>promise\<close> follows it: the call resolves with the value the thenable is
  fulfilled with, not with the payload, and while the thenable is pending the call stays
  pending even when the timer expires, with its listener still subscribed.
\<close>

theorem waitForEvent_match_counterexample:
  "idle_prefix example_args (arg_captured example_args)
     [Emit 0 (EvString ''load'') (Plain (Number (Finite 0)))] = Some () \<and>
   arg_predicate example_args () (Plain (ErrorObject 1 ''boom'')) =
     (Returns (Plain (Boolean True)), ()) \<and>
   outcome example_args example_emitters None
     [Emit 0 (EvString ''load'') (Plain (Number (Finite 0))),
      Emit 0 (EvString ''load'') (Plain (ErrorObject 1 ''boom''))] =
     Some (Rejected (Plain (ErrorObject 1 ''boom''))) \<and>
   outcome example_args example_emitters None
     [Emit 0 (EvString ''load'') (Plain (Number (Finite 0))),
      Emit 0 (EvString ''load'') (Plain (ErrorObject 1 ''boom''))] \<noteq>
     Some (Fulfilled (ErrorObject 1 ''boom'')) \<and>
   arg_predicate example_args () (Thenable 4) = (Returns (Plain (Boolean True)), ()) \<and>
   outcome example_args example_emitters None
     [Emit 0 (EvString ''load'') (Plain (Number (Finite 0))),
      Emit 0 (EvString ''load'') (Thenable 4),
      SettleThenable 4 (Fulfilled (Number (Finite 42)))] =
     Some (Fulfilled (Number (Finite 42))) \<and>
   outcome example_args example_emitters None
     [Emit 0 (EvString ''load'') (Plain (Number (Finite 0))),
      Emit 0 (EvString ''load'') (Thenable 4),
      TimerFire] = None \<and>
   emitters
     (drain (run example_args example_emitters None
        [Emit 0 (EvString ''load'') (Plain (Number (Finite 0))),
         Emit 0 (EvString ''load'') (Thenable 4),
         TimerFire])) 0 (EvString ''load'') = [External 5, WaitHandler]"
  by (simp add: wait_eval)

text \<open>
  C4. If the abort promise resolves to an \<open>Error\<close> value while the wait is pending (only idle
  actions before it: no event matched, the timer did not expire), or is already resolved to
  one at the call, then \<open>waitForEvent\<close> fails with that very value, and cleanup has been
  performed whenever the failure is there to observe.
\<close>

theorem waitForEvent_abort_error:
  assumes "instanceof_Error e"
  shows "(idle_prefix A (arg_captured A) pre \<noteq> None \<longrightarrow>
           outcome A E None (pre @ Settle (Fulfilled e) # post) = Some (Rejected (Plain e)) \<and>
           cleaned_up A E (drain (run A E None (pre @ Settle (Fulfilled e) # post))) \<and>
           (returned (run A E None (pre @ Settle (Fulfilled e) # post)) = None \<or>
            returned (run A E None (pre @ Settle (Fulfilled e) # post)) =
              Some (Rejected (Plain e)) \<and>
            cleaned_up A E (run A E None (pre @ Settle (Fulfilled e) # post)))) \<and>
         outcome A E (Some (Fulfilled e)) acts = Some (Rejected (Plain e)) \<and>
         cleaned_up A E (drain (run A E (Some (Fulfilled e)) acts))"
proof -
  have i: "Inv A E (waitForEvent A E (Some (Fulfilled e)))"
    by (rule Inv_init)
  have d: "decided (waitForEvent A E (Some (Fulfilled e))) = Some (Fulfilled e)"
    by (rule decided_abort_settled)
  have "outcome A E (Some (Fulfilled e)) acts = Some (after_await (Fulfilled e))"
    using determined(1) [OF i d] by (simp add: outcome_def run_def)
  moreover have "cleaned_up A E (drain (run A E (Some (Fulfilled e)) acts))"
    using determined(2) [OF i d] by (simp add: run_def)
  moreover have
    "outcome A E None (pre @ Settle (Fulfilled e) # post) = Some (after_await (Fulfilled e)) \<and>
     cleaned_up A E (drain (run A E None (pre @ Settle (Fulfilled e) # post))) \<and>
     (returned (run A E None (pre @ Settle (Fulfilled e) # post)) = None \<or>
      returned (run A E None (pre @ Settle (Fulfilled e) # post)) = Some (after_await (Fulfilled e)) \<and>
      cleaned_up A E (run A E None (pre @ Settle (Fulfilled e) # post)))"
    if "idle_prefix A (arg_captured A) pre \<noteq> None"
  proof -
    from that obtain p where idle: "idle_prefix A (arg_captured A) pre = Some p" by blast
    from first_source(1) [OF idle decided_abort_first]
      first_source(2) [OF idle decided_abort_first]
      first_source(3) [OF idle decided_abort_first]
    show ?thesis by blast
  qed
  ultimately show ?thesis
    using assms by simp
qed

theorem waitForEvent_abort_error_witness:
  "outcome example_args example_emitters None
     ([Emit 0 (EvString ''load'') (Plain (Number (Finite 0)))]
        @ Settle (Fulfilled (ErrorObject 2 ''aborted''))
        # [Emit 0 (EvString ''load'') (Plain (Number (Finite 3))), TimerFire]) =
     Some (Rejected (Plain (ErrorObject 2 ''aborted'')))"
  using waitForEvent_abort_error [where e = "ErrorObject 2 ''aborted''" and A = example_args
      and pre = "[Emit 0 (EvString ''load'') (Plain (Number (Finite 0)))]"
      and E = example_emitters
      and post = "[Emit 0 (EvString ''load'') (Plain (Number (Finite 3))), TimerFire]"
      and acts = "[]"]
  by (simp add: example_args_def)

text \<open>
  C5. If the predicate throws while evaluating an emitted event (only idle actions before
  it), \<open>waitForEvent\<close> fails with the thrown value itself, the listener is removed, and the
  timer, if one was armed, is cancelled without having fired.
\<close>

theorem waitForEvent_predicate_throws:
  assumes "idle_prefix A (arg_captured A) pre = Some p" and "arg_predicate A p v = (Throws x, p')"
  shows "outcome A E None (pre @ Emit (arg_emitter A) (arg_eventName A) v # post) =
           Some (Rejected x) \<and>
         cleaned_up A E
           (drain (run A E None (pre @ Emit (arg_emitter A) (arg_eventName A) v # post))) \<and>
         (truthy_number (arg_timeout A) \<longrightarrow>
            eventTimeout
              (drain (run A E None (pre @ Emit (arg_emitter A) (arg_eventName A) v # post))) =
            Cleared)"
  using first_source(1,2) [OF assms(1) decided_throw_first [OF assms(2)], of E post]
    first_source(4) [OF assms(1) decided_throw_first [OF assms(2)] unfired_emit_first, of E post]
  by simp

theorem waitForEvent_predicate_throws_witness:
  "outcome example_args example_emitters None
     ([Emit 0 (EvString ''load'') (Plain (Number (Finite 0)))]
        @ Emit 0 (EvString ''load'') (Plain (String ''bad'')) # [TimerFire]) =
     Some (Rejected (Plain (ErrorObject 7 ''bad''))) \<and>
   eventTimeout (drain (run example_args example_emitters None
     ([Emit 0 (EvString ''load'') (Plain (Number (Finite 0)))]
        @ Emit 0 (EvString ''load'') (Plain (String ''bad'')) # [TimerFire]))) = Cleared"
  using waitForEvent_predicate_throws [where A = example_args and p = "()" and p' = "()"
      and pre = "[Emit 0 (EvString ''load'') (Plain (Number (Finite 0)))]"
      and v = "Plain (String ''bad'')" and x = "Plain (ErrorObject 7 ''bad'')"
      and E = example_emitters and post = "[TimerFire]"]
  by (simp add: example_args_def)

text \<open>
  C6. Once one completion source has fired (the promise of the listener and the timer is
  settled, or the abort promise is), the outcome of the wait is the one that source gives,
  whatever fires afterwards: the caller observes that outcome and, at every later moment,
  either nothing yet or that same outcome.
\<close>

theorem waitForEvent_resolves_once:
  assumes "promise (run A E abort pre) \<noteq> None \<or> abortPromise (run A E abort pre) \<noteq> None"
  shows "\<exists>c. (promise (run A E abort pre) = Some c \<or> abortPromise (run A E abort pre) = Some c) \<and>
           (\<forall>post. outcome A E abort (pre @ post) = Some (after_await c) \<and>
              (returned (run A E abort (pre @ post)) = None \<or>
               returned (run A E abort (pre @ post)) = Some (after_await c)) \<and>
              (\<forall>r. returned (run A E abort pre) = Some r \<longrightarrow>
                 returned (run A E abort (pre @ post)) = Some r))"
proof -
  let ?s = "run A E abort pre"
  have i: "Inv A E ?s" by (rule Inv_run)
  from source_decided [OF i assms] obtain c where c: "decided ?s = Some c" ..
  have "source ?s c" using i c by (rule decided_source)
  moreover have "outcome A E abort (pre @ post) = Some (after_await c)" for post
    using determined(1) [OF i c] by (simp add: outcome_def run_append)
  moreover have "returned (run A E abort (pre @ post)) = None \<or>
                 returned (run A E abort (pre @ post)) = Some (after_await c)" for post
    using determined(3) [OF i c] by (simp add: run_append)
  moreover have "returned (run A E abort (pre @ post)) = Some r"
    if "returned ?s = Some r" for r post
    using returned_fold [OF i that] by (simp add: run_append)
  ultimately show ?thesis
    unfolding source_def by blast
qed

theorem waitForEvent_resolves_once_witness:
  "outcome example_args example_emitters None
     ([Emit 0 (EvString ''load'') (Plain (Number (Finite 3)))]
        @ [Emit 0 (EvString ''load'') (Plain (Number (Finite 4))),
           Settle (Fulfilled (ErrorObject 2 ''aborted'')), TimerFire]) =
   outcome example_args example_emitters None
     ([Emit 0 (EvString ''load'') (Plain (Number (Finite 3)))] @ [])"
proof -
  have "promise (run example_args example_emitters None
          [Emit 0 (EvString ''load'') (Plain (Number (Finite 3)))]) \<noteq> None"
    by (simp add: wait_eval)
  with waitForEvent_resolves_once [of example_args example_emitters None
      "[Emit 0 (EvString ''load'') (Plain (Number (Finite 3)))]"]
  obtain c where
    "\<forall>post. outcome example_args example_emitters None
        ([Emit 0 (EvString ''load'') (Plain (Number (Finite 3)))] @ post) = Some (after_await c)"
    by blast
  then show ?thesis by simp
qed

text \<open>
  C7. For a call of \<open>waitWithTimeout\<close> with a timeout \<open>t > 0\<close>, whole or fractional: if the
  timer expires before the supplied promise settles, the call fails with a \<open>TimeoutError\<close>
  whose message is exactly \<open>waiting for <taskName> failed: timeout <t>ms exceeded\<close>, where
  \<open><t>\<close> is the text the template literal gives the number; if the promise settles first
  (or has failed already at the call), the call settles the same way, so a failure is
  propagated as it is; and whenever the call has returned or thrown, \<open>clearTimeout\<close> has been
  called on the timer, once, and no timer is armed.
\<close>

theorem waitWithTimeout_paths:
  assumes "positive timeout"
  shows "(list_all quiet pre \<longrightarrow>
            timeout_outcome digits None taskName timeout (pre @ TimerFire # post) =
              Some (Rejected (Plain (TimeoutError
                (''waiting for '' @ taskName @ '' failed: timeout ''
                   @ Number_toString digits timeout @ ''ms exceeded''))))) \<and>
         (list_all quiet pre \<longrightarrow>
            timeout_outcome digits None taskName timeout (pre @ Settle (Rejected e) # post) =
              Some (Rejected e) \<and>
            timeout_outcome digits None taskName timeout (pre @ Settle (Fulfilled v) # post) =
              Some (Fulfilled v)) \<and>
         timeout_outcome digits (Some (Rejected e)) taskName timeout acts = Some (Rejected e) \<and>
         (result (timeout_run digits p taskName timeout acts) \<noteq> None \<longrightarrow>
            timeoutTimer (timeout_run digits p taskName timeout acts) \<noteq> Armed \<and>
            timer_clears (timeout_run digits p taskName timeout acts) = 1) \<and>
         (timeout_outcome digits p taskName timeout acts \<noteq> None \<longrightarrow>
            timeoutTimer (timeout_drain (timeout_run digits p taskName timeout acts)) \<noteq> Armed \<and>
            timer_clears (timeout_drain (timeout_run digits p taskName timeout acts)) = 1)"
proof -
  from assms have t: "truthy_number timeout" by (rule positive_truthy)
  have "timeout_outcome digits None taskName timeout (pre @ TimerFire # post) =
          Some (Rejected (Plain (TimeoutError (timeout_text digits taskName timeout))))"
    if "list_all quiet pre"
    using that timeout_decided_timer_first [OF t] by (rule timeout_after_first)
  moreover have "timeout_outcome digits None taskName timeout (pre @ Settle c # post) = Some c"
    if "list_all quiet pre" for c
    using that timeout_decided_settle_first by (rule timeout_after_first)
  moreover have "timeoutTimer (timeout_run digits p taskName timeout acts) \<noteq> Armed \<and>
                 timer_clears (timeout_run digits p taskName timeout acts) = 1"
    if "result (timeout_run digits p taskName timeout acts) \<noteq> None"
    using timeout_Inv_run t that by (rule timeout_cleared_on_exit)
  moreover have
    "timeoutTimer (timeout_drain (timeout_run digits p taskName timeout acts)) \<noteq> Armed \<and>
     timer_clears (timeout_drain (timeout_run digits p taskName timeout acts)) = 1"
    if "timeout_outcome digits p taskName timeout acts \<noteq> None"
    using timeout_Inv_drain [OF timeout_Inv_run] t that [unfolded timeout_outcome_def]
    by (rule timeout_cleared_on_exit)
  ultimately show ?thesis
    by (simp add: timeout_text_def settled_at_call)
qed

theorem waitWithTimeout_paths_witness:
  "timeout_outcome example_digits None ''navigation'' (Finite 30)
     ([Tick] @ TimerFire # [Settle (Fulfilled (Number (Finite 1)))]) =
     Some (Rejected (Plain (TimeoutError
       ''waiting for navigation failed: timeout 30ms exceeded''))) \<and>
   timeout_outcome example_digits None ''navigation'' (Finite (3 / 2))
     ([Tick] @ TimerFire # [Settle (Fulfilled (Number (Finite 1)))]) =
     Some (Rejected (Plain (TimeoutError
       ''waiting for navigation failed: timeout 1.5ms exceeded''))) \<and>
   timeout_outcome example_digits None ''navigation'' (Finite 30)
     ([Tick] @ Settle (Rejected (Plain (ErrorObject 3 ''net''))) # [TimerFire]) =
     Some (Rejected (Plain (ErrorObject 3 ''net''))) \<and>
   timer_clears
     (timeout_run example_digits None ''navigation'' (Finite 30)
        [Settle (Rejected (Plain (ErrorObject 3 ''net''))), Tick, Tick]) = 1"
  using waitWithTimeout_paths [where timeout = "Finite 30" and pre = "[Tick]"
      and digits = example_digits and taskName = "''navigation''"
      and post = "[Settle (Fulfilled (Number (Finite 1)))]"
      and e = "Plain Undefined" and v = Undefined and p = None and acts = "[]"]
    waitWithTimeout_paths [where timeout = "Finite (3 / 2)" and pre = "[Tick]"
      and digits = example_digits and taskName = "''navigation''"
      and post = "[Settle (Fulfilled (Number (Finite 1)))]"
      and e = "Plain Undefined" and v = Undefined and p = None and acts = "[]"]
    waitWithTimeout_paths [where timeout = "Finite 30" and pre = "[Tick]"
      and digits = example_digits and taskName = "''navigation''" and post = "[TimerFire]"
      and e = "Plain (ErrorObject 3 ''net'')" and v = Undefined and p = None
      and acts = "[Settle (Rejected (Plain (ErrorObject 3 ''net''))), Tick, Tick]"]
  by (simp add: timeout_eval)

text \<open>
  C8. With timeout \<open>0\<close>, \<open>waitWithTimeout\<close> arms no timer and never times out: for every state
  of the promise at the call and every sequence of actions, expiries of timers included, the
  outcome of the call is the outcome of awaiting the promise directly, \<open>timeoutPromise\<close> stays
  pending, and \<open>clearTimeout\<close> is never called.
\<close>

theorem waitWithTimeout_zero:
  "timeout_outcome digits p taskName (Finite 0) acts = await_directly p acts \<and>
   timeoutTimer (timeout_run digits p taskName (Finite 0) acts) = NoTimer \<and>
   timeoutPromise (timeout_run digits p taskName (Finite 0) acts) = None \<and>
   timer_clears (timeout_run digits p taskName (Finite 0) acts) = 0"
proof -
  have "timeout_outcome digits p taskName (Finite 0) acts = await_directly p acts"
  proof (cases p)
    case None
    then show ?thesis by (simp add: no_timer_pending)
  next
    case (Some c)
    then show ?thesis by (simp add: settled_at_call)
  qed
  then show ?thesis
    using no_timer_armed [of digits p taskName acts] no_timeout_promise [of digits p taskName acts]
    by simp
qed

theorem waitWithTimeout_zero_witness:
  "timeout_outcome example_digits None ''navigation'' (Finite 0)
     [TimerFire, Tick, TimerFire, Settle (Fulfilled (Number (Finite 1))), TimerFire] =
     Some (Fulfilled (Number (Finite 1)))"
  using waitWithTimeout_zero [of example_digits None "''navigation''"
      "[TimerFire, Tick, TimerFire, Settle (Fulfilled (Number (Finite 1))), TimerFire]"]
  by simp

text \<open>
  C9. \<open>removeEventListeners\<close> on the array with reference \<open>r\<close>: every handle of the batch takes
  one subscription of its handler away from its event name on its emitter (as far as there is
  one), and the array itself is emptied, so whoever holds \<open>r\<close> sees it drained, while other
  arrays are untouched. On an empty array the call changes nothing, and a second call on the
  same batch changes nothing and leaves the array empty; no call fails.
\<close>

theorem removeEventListeners_drains_batch:
  "arrays (call_removeEventListeners w r) r = [] \<and>
   (\<forall>r'. r' \<noteq> r \<longrightarrow> arrays (call_removeEventListeners w r) r' = arrays w r') \<and>
   count_list (emitters_of (call_removeEventListeners w r) em n) h =
     count_list (emitters_of w em n) h
       - count_list (arrays w r) \<lparr>emitter = em, eventName = n, handler = h\<rparr> \<and>
   (arrays w r = [] \<longrightarrow> call_removeEventListeners w r = w) \<and>
   call_removeEventListeners (call_removeEventListeners w r) r = call_removeEventListeners w r"
proof -
  have "call_removeEventListeners (call_removeEventListeners w r) r = call_removeEventListeners w r"
    by (rule call_removeEventListeners_empty) (simp add: call_removeEventListeners_arrays)
  then show ?thesis
    by (simp add: call_removeEventListeners_arrays call_removeEventListeners_emitters
          count_fold_removeListener call_removeEventListeners_empty)
qed

theorem removeEventListeners_drains_batch_witness:
  "arrays (call_removeEventListeners example_world 1) 1 = [] \<and>
   emitters_of (call_removeEventListeners example_world 1) 0 (EvString ''load'') = [] \<and>
   emitters_of (call_removeEventListeners example_world 1) 0 (EvString ''close'') = [] \<and>
   call_removeEventListeners (call_removeEventListeners example_world 1) 1 =
     call_removeEventListeners example_world 1"
  using removeEventListeners_drains_batch [of example_world 1 0 "EvString ''load''" 5]
    removeEventListeners_drains_batch [of example_world 1 0 "EvString ''close''" 6]
  by (simp add: example_world_def on_def count_list_0_iff call_removeEventListeners_def
        removeEventListeners_def removeListener_def)

text \<open>
  C10. When the race is fulfilled with a result, \<open>waitForEvent\<close> throws the result if and only
  if it is an instance of \<open>Error\<close>, and returns it otherwise, whichever source the result
  came from. So an abort promise that resolves first to a value that is not an \<open>Error\<close> makes
  the call return that value, and a matched event whose payload is an \<open>Error\<close> makes the call
  fail with the payload.
\<close>

theorem waitForEvent_instanceof_check:
  "(race (drain (run A E abort acts)) = Some (Fulfilled res) \<longrightarrow>
      outcome A E abort acts =
        Some (if instanceof_Error res then Rejected (Plain res) else Fulfilled res)) \<and>
   (idle_prefix A (arg_captured A) pre = Some p \<and> \<not> instanceof_Error v \<longrightarrow>
      outcome A E None (pre @ Settle (Fulfilled v) # post) = Some (Fulfilled v)) \<and>
   (idle_prefix A (arg_captured A) pre = Some p \<and>
    arg_predicate A p (Plain event) = (Returns r, p') \<and> truthy r \<and> instanceof_Error event \<longrightarrow>
      outcome A E None (pre @ Emit (arg_emitter A) (arg_eventName A) (Plain event) # post) =
        Some (Rejected (Plain event)))"
proof -
  have "outcome A E abort acts = Some (after_await (Fulfilled res))"
    if "race (drain (run A E abort acts)) = Some (Fulfilled res)"
    using raced_outcome [OF Inv_drain [OF Inv_run] drain_empty that]
    by (simp add: outcome_def)
  moreover have "outcome A E None (pre @ Settle (Fulfilled v) # post) =
                   Some (after_await (Fulfilled v))"
    if "idle_prefix A (arg_captured A) pre = Some p"
    using that decided_abort_first by (rule first_source(1))
  moreover have
    "outcome A E None (pre @ Emit (arg_emitter A) (arg_eventName A) (Plain event) # post) =
       Some (after_await (Fulfilled event))"
    if "idle_prefix A (arg_captured A) pre = Some p"
      "arg_predicate A p (Plain event) = (Returns r, p')" "truthy r"
    using that(1) decided_match_first [OF that(2,3)] by (rule first_source(1))
  ultimately show ?thesis by simp
qed

theorem waitForEvent_instanceof_check_witness:
  "outcome example_args example_emitters None
     ([Tick] @ Settle (Fulfilled (Number (Finite 7))) # [TimerFire]) =
     Some (Fulfilled (Number (Finite 7))) \<and>
   outcome example_args example_emitters None
     ([Tick] @ Emit 0 (EvString ''load'') (Plain (ErrorObject 1 ''boom'')) # [TimerFire]) =
     Some (Rejected (Plain (ErrorObject 1 ''boom'')))"
  using waitForEvent_instanceof_check [where A = example_args and E = example_emitters
      and pre = "[Tick]" and p = "()" and p' = "()" and v = "Number (Finite 7)"
      and post = "[TimerFire]" and event = "ErrorObject 1 ''boom''"
      and r = "Plain (Boolean True)"]
  by (simp add: example_args_def)


end
